theory Spec2Isabelle
  imports Complex_Main "HOL-Library.Word" "HOL-Library.AList" "HOL-Library.Signed_Division"
begin

section \<open>Louvain community detection (louvain.cpp): data model\<close>

text \<open>
  The source keeps every table in a \<^verbatim>\<open>std::unordered_map\<close>. It is modelled as an
  association list with one entry per key: \<open>m[k]\<close> that reads a missing key inserts the
  value-initialised entry (appended at the end), \<open>m[k] = v\<close> overwrites in place or
  appends, \<open>m.at(k)\<close> throws \<^verbatim>\<open>std::out_of_range\<close> on a missing key. The iteration order of an
  unordered map is unspecified; the model iterates in list order.

  \<^verbatim>\<open>ustore_key_t\<close> is a 64-bit integer that the algorithm only compares, copies and
  value-initialises (to 0); it is modelled as \<open>int\<close>.
\<close>

type_synonym ustore_key_t = int

text \<open>
  \<^verbatim>\<open>double\<close>: degrees, edge weights and community statistics are finite values (degree
  counts and sums of them, which binary64 adds and subtracts exactly below \<open>2^53\<close>) and
  are modelled as reals. The quotients of the source can have a zero divisor, where
  IEEE-754 arithmetic yields an infinity or a NaN; their results live in \<open>double\<close>. Every
  divisor of the source is a non-negative zero (an unsigned count, a square or half of
  one), so only \<open>+0.0\<close> occurs as a zero divisor. The modularity delta decides whether a
  vertex moves, by the comparison \<^verbatim>\<open>delta > best_mod\<close>: each of its operations is rounded
  to binary64 (\<open>binary64\<close> below: round to nearest, ties to even, with subnormals and
  overflow to infinity; no fused multiply-add). The value of the Modularity Evaluator is
  computed without rounding.
\<close>

datatype double = Fin real | PInf | NInf | NaN

fun dneg :: "double \<Rightarrow> double" where
  "dneg (Fin a) = Fin (- a)"
| "dneg PInf = NInf"
| "dneg NInf = PInf"
| "dneg NaN = NaN"

fun dadd :: "double \<Rightarrow> double \<Rightarrow> double" where
  "dadd (Fin a) (Fin b) = Fin (a + b)"
| "dadd NaN _ = NaN"
| "dadd _ NaN = NaN"
| "dadd PInf NInf = NaN"
| "dadd NInf PInf = NaN"
| "dadd PInf _ = PInf"
| "dadd _ PInf = PInf"
| "dadd NInf _ = NInf"
| "dadd _ NInf = NInf"

definition dsub :: "double \<Rightarrow> double \<Rightarrow> double" where
  "dsub a b = dadd a (dneg b)"

fun dmul :: "double \<Rightarrow> double \<Rightarrow> double" where
  "dmul (Fin a) (Fin b) = Fin (a * b)"
| "dmul NaN _ = NaN"
| "dmul _ NaN = NaN"
| "dmul PInf (Fin b) = (if 0 < b then PInf else if b < 0 then NInf else NaN)"
| "dmul NInf (Fin b) = (if 0 < b then NInf else if b < 0 then PInf else NaN)"
| "dmul (Fin a) PInf = (if 0 < a then PInf else if a < 0 then NInf else NaN)"
| "dmul (Fin a) NInf = (if 0 < a then NInf else if a < 0 then PInf else NaN)"
| "dmul PInf PInf = PInf"
| "dmul PInf NInf = NInf"
| "dmul NInf PInf = NInf"
| "dmul NInf NInf = PInf"

text \<open>Division of two finite values; the divisor zero is \<open>+0.0\<close>.\<close>

definition ddiv :: "real \<Rightarrow> real \<Rightarrow> double" where
  "ddiv a b =
     (if b \<noteq> 0 then Fin (a / b)
      else if 0 < a then PInf else if a < 0 then NInf else NaN)"

text \<open>The comparisons \<open>a > b\<close> and \<open>a <= b\<close>: false whenever an operand is NaN.\<close>

fun dgt :: "double \<Rightarrow> double \<Rightarrow> bool" where
  "dgt (Fin a) (Fin b) = (b < a)"
| "dgt NaN _ = False"
| "dgt _ NaN = False"
| "dgt PInf PInf = False"
| "dgt PInf _ = True"
| "dgt NInf _ = False"
| "dgt (Fin a) PInf = False"
| "dgt (Fin a) NInf = True"

fun dle :: "double \<Rightarrow> double \<Rightarrow> bool" where
  "dle (Fin a) (Fin b) = (a \<le> b)"
| "dle NaN _ = False"
| "dle _ NaN = False"
| "dle NInf _ = True"
| "dle _ PInf = True"
| "dle PInf _ = False"
| "dle (Fin a) NInf = False"

text \<open>
  Rounding to binary64. \<open>binary_exponent x\<close> is the integer \<open>e\<close> with
  \<open>2^e \<le> x < 2^(e+1)\<close>, for a positive \<open>x\<close>; the spacing of the binary64 values around \<open>x\<close>
  is \<open>2^(e-52)\<close>, and \<open>2^(-1074)\<close> below the smallest normal value \<open>2^(-1022)\<close>.
\<close>

definition pow2 :: "int \<Rightarrow> real" where
  "pow2 e = (if 0 \<le> e then 2 ^ nat e else 1 / 2 ^ nat (- e))"

function exponent_up :: "real \<Rightarrow> int" where
  "exponent_up x = (if x < 2 then 0 else 1 + exponent_up (x / 2))"
  by pat_completeness auto
termination
proof (relation "measure (\<lambda>x. nat \<lfloor>x\<rfloor>)")
  show "wf (measure (\<lambda>x. nat \<lfloor>x\<rfloor>))" by simp
next
  fix x :: real
  assume "\<not> x < 2"
  then have x: "2 \<le> x" by simp
  have "\<lfloor>x / 2\<rfloor> < \<lfloor>x\<rfloor>"
  proof -
    have "x / 2 \<le> x - 1" using x by simp
    then have "\<lfloor>x / 2\<rfloor> \<le> \<lfloor>x - 1\<rfloor>" by (rule floor_mono)
    also have "\<dots> = \<lfloor>x\<rfloor> - 1" by simp
    finally show ?thesis by simp
  qed
  moreover have "0 < \<lfloor>x\<rfloor>" using x by simp
  ultimately show "(x / 2, x) \<in> measure (\<lambda>x. nat \<lfloor>x\<rfloor>)" by simp
qed

function exponent_down :: "real \<Rightarrow> int" where
  "exponent_down x = (if x \<le> 0 \<or> 1 \<le> x then 0 else exponent_down (2 * x) - 1)"
  by pat_completeness auto
termination
proof (relation "measure (\<lambda>x. nat \<lceil>1 / x\<rceil>)")
  show "wf (measure (\<lambda>x. nat \<lceil>1 / x\<rceil>))" by simp
next
  fix x :: real
  assume "\<not> (x \<le> 0 \<or> 1 \<le> x)"
  then have x: "0 < x" "x < 1" by simp_all
  let ?y = "1 / x"
  have y: "1 < ?y" using x by simp
  have h: "1 / (2 * x) = ?y / 2" by simp
  have two: "2 \<le> \<lceil>?y\<rceil>" using y by (simp add: le_ceiling_iff)
  have c: "\<lceil>?y / 2\<rceil> < \<lceil>?y\<rceil>"
  proof -
    have "?y \<le> of_int \<lceil>?y\<rceil>" by (rule le_of_int_ceiling)
    then have "?y / 2 \<le> of_int \<lceil>?y\<rceil> / 2" by simp
    also have "\<dots> \<le> of_int (\<lceil>?y\<rceil> - 1)" using two by simp
    finally have "\<lceil>?y / 2\<rceil> \<le> \<lceil>?y\<rceil> - 1" by (simp only: ceiling_le_iff)
    then show ?thesis by simp
  qed
  have "0 < \<lceil>?y\<rceil>" using two by linarith
  with c show "(2 * x, x) \<in> measure (\<lambda>x. nat \<lceil>1 / x\<rceil>)"
    unfolding in_measure h by linarith
qed

definition binary_exponent :: "real \<Rightarrow> int" where
  "binary_exponent x = (if 1 \<le> x then exponent_up x else exponent_down x)"

definition round_ties_even :: "real \<Rightarrow> int" where
  "round_ties_even x =
     (let f = \<lfloor>x\<rfloor>; r = x - of_int f
      in if r < 1 / 2 then f else if 1 / 2 < r then f + 1 else if even f then f else f + 1)"

text \<open>The nearest multiple of the spacing \<open>q\<close>, the nearest value with a 53-bit significand,
  and the binary64 result: an infinity when that value is beyond the largest finite one.\<close>

definition round_to_spacing :: "real \<Rightarrow> real \<Rightarrow> real" where
  "round_to_spacing x q = of_int (round_ties_even (x / q)) * q"

definition round64 :: "real \<Rightarrow> real" where
  "round64 x =
     (if x = 0 then 0
      else round_to_spacing x (pow2 (max (binary_exponent \<bar>x\<bar>) (- 1022) - 52)))"

definition overflow64 :: "real \<Rightarrow> double" where
  "overflow64 y =
     (if y \<noteq> 0 \<and> 1024 \<le> binary_exponent \<bar>y\<bar> then (if 0 < y then PInf else NInf)
      else Fin y)"

definition binary64 :: "real \<Rightarrow> double" where
  "binary64 x = overflow64 (round64 x)"

text \<open>A binary64 operation: the exact result of the operation, rounded.\<close>

definition fl :: "double \<Rightarrow> double" where
  "fl a = (case a of Fin x \<Rightarrow> binary64 x | PInf \<Rightarrow> PInf | NInf \<Rightarrow> NInf | NaN \<Rightarrow> NaN)"

text \<open>For evaluation only: \<open>canonical\<close> is the identity, and marks where a computed
  fraction is reduced to lowest terms.\<close>

definition canonical :: "real \<Rightarrow> real" where
  "canonical x = x"

record community_degree_t =
  in_degree :: real
  tot_degree :: real

type_synonym partition_t = "(ustore_key_t \<times> ustore_key_t) list"
type_synonym vertex_degrees_t = "(ustore_key_t \<times> real) list"
type_synonym graph_t = "(ustore_key_t \<times> (ustore_key_t \<times> real) list) list"
type_synonym community_degrees_t = "(ustore_key_t \<times> community_degree_t) list"

datatype error = OutOfRange

text \<open>\<open>m[k]\<close> as an rvalue, \<open>d\<close> being the value-initialised entry: the value read, and the
  map afterwards.\<close>

definition index_get :: "'v \<Rightarrow> ('k \<times> 'v) list \<Rightarrow> 'k \<Rightarrow> 'v" where
  "index_get d m k = (case map_of m k of None \<Rightarrow> d | Some v \<Rightarrow> v)"

definition index_touch :: "'v \<Rightarrow> ('k \<times> 'v) list \<Rightarrow> 'k \<Rightarrow> ('k \<times> 'v) list" where
  "index_touch d m k = (case map_of m k of None \<Rightarrow> m @ [(k, d)] | Some v \<Rightarrow> m)"

definition community_degree_0 :: community_degree_t where
  "community_degree_0 = \<lparr>in_degree = 0, tot_degree = 0\<rparr>"

section \<open>Modularity evaluator\<close>

text \<open>
  \<^verbatim>\<open>modularity\<close> (lines 155-164). The loop runs over the entries of the partition, one per
  vertex, and reads the statistics of the vertex's community with \<^verbatim>\<open>at\<close>.
\<close>

fun modularity_loop ::
  "community_degrees_t \<Rightarrow> real \<Rightarrow> real \<Rightarrow> double \<Rightarrow> double \<Rightarrow> partition_t \<Rightarrow> error + double"
where
  "modularity_loop community_degrees deg_sum m norm' res [] = Inr res"
| "modularity_loop community_degrees deg_sum m norm' res (iter # rest) =
     (case map_of community_degrees (snd iter) of
        None \<Rightarrow> Inl OutOfRange
      | Some community_degree \<Rightarrow>
          modularity_loop community_degrees deg_sum m norm'
            (dadd res
               (dsub (ddiv (tot_degree community_degree - in_degree community_degree) m)
                     (dmul (Fin (deg_sum * deg_sum)) norm')))
            rest)"

definition modularity :: "partition_t \<Rightarrow> community_degrees_t \<Rightarrow> real \<Rightarrow> error + double" where
  "modularity partition' community_degrees deg_sum =
     (let m = deg_sum / 2;
          norm' = ddiv 1 (m * m)
      in modularity_loop community_degrees deg_sum m norm' (Fin 0) partition')"

text \<open>The formula of the specification: one term for each community of the partition.\<close>

definition modularity_per_community :: "partition_t \<Rightarrow> community_degrees_t \<Rightarrow> real \<Rightarrow> real" where
  "modularity_per_community partition' community_degrees degree_sum =
     (let m = degree_sum / 2
      in (\<Sum>c \<in> snd ` set partition'.
            (tot_degree (index_get community_degree_0 community_degrees c)
               - in_degree (index_get community_degree_0 community_degrees c)) / m
            - degree_sum\<^sup>2 / m\<^sup>2))"

text \<open>The term of one community, and the number of vertices of a community.\<close>

definition modularity_term :: "community_degrees_t \<Rightarrow> real \<Rightarrow> ustore_key_t \<Rightarrow> real" where
  "modularity_term community_degrees deg_sum c =
     (tot_degree (index_get community_degree_0 community_degrees c)
        - in_degree (index_get community_degree_0 community_degrees c)) / (deg_sum / 2)
     - deg_sum\<^sup>2 / (deg_sum / 2)\<^sup>2"

definition members :: "partition_t \<Rightarrow> ustore_key_t \<Rightarrow> nat" where
  "members partition' c = length (filter (\<lambda>iter. snd iter = c) partition')"

section \<open>The graph store\<close>

text \<open>
  Modelled from the spec: the graph store collaborator (\<^verbatim>\<open>graph_collection_t\<close> of
  \<^verbatim>\<open>ustore/ustore.hpp\<close>, which is not among the sources). Its contract: an edge count, a
  restartable vertex stream that is also read in batches, the neighbour list of a vertex,
  and the degrees of a batch of vertices, positionally aligned. The model covers the runs
  in which every store call answers; a failed call throws out of the driver
  (\<^verbatim>\<open>throw_or_release\<close>) with no result. The vertex count is only used to reserve memory.
\<close>

record graph_collection_t =
  keys_batches :: "ustore_key_t list list"
  neighbors_of :: "ustore_key_t \<Rightarrow> ustore_key_t list"
  degree_of :: "ustore_key_t \<Rightarrow> real"
  number_of_edges :: "64 word"

definition vertex_stream :: "graph_collection_t \<Rightarrow> ustore_key_t list" where
  "vertex_stream graph_collection = concat (keys_batches graph_collection)"

section \<open>Local-Move Engine\<close>

text \<open>The three tables that both phases receive by reference and update in place.\<close>

record tables =
  t_partition :: partition_t
  t_degrees :: vertex_degrees_t
  t_community_degrees :: community_degrees_t

text \<open>\<open>m[k].field op= x\<close>: the entry of \<open>k\<close>, inserted first when missing, is changed in place.\<close>

definition index_modify ::
  "(community_degree_t \<Rightarrow> community_degree_t) \<Rightarrow> community_degrees_t \<Rightarrow> ustore_key_t
     \<Rightarrow> community_degrees_t" where
  "index_modify f m k = AList.update k (f (index_get community_degree_0 m k)) m"

text \<open>
  The modularity delta of lines 69-71 (\<^verbatim>\<open>first_phase\<close>) and of lines 129-131
  (\<^verbatim>\<open>second_phase\<close>). \<^verbatim>\<open>count_edges\<close> is a \<^verbatim>\<open>std::size_t\<close>: the product
  \<^verbatim>\<open>count_edges * count_edges\<close> is computed in 64-bit unsigned arithmetic and then
  converted to \<^verbatim>\<open>double\<close>. The arguments are the values of the doubles that the sweep
  has read from the tables. Every conversion and every operation rounds to binary64, in
  the order of the expression: the two quotients, the two differences (the second one
  after the sum \<^verbatim>\<open>vertex_degree + neighbor_com_tot_degree\<close>), the two products, and the
  final difference.
\<close>

definition first_phase_delta :: "64 word \<Rightarrow> real \<Rightarrow> real \<Rightarrow> real \<Rightarrow> real \<Rightarrow> real \<Rightarrow> double" where
  "first_phase_delta count_edges vertex_degree vertex_in_neighbor_com_degree
      vertex_in_vertex_com_degree neighbor_com_tot_degree vertex_com_tot_degree =
     fl (dsub
       (fl (dmul (fl (ddiv 1 (round64 (real (unat count_edges)))))
                 (binary64 (vertex_in_neighbor_com_degree - vertex_in_vertex_com_degree))))
       (fl (dmul (fl (ddiv vertex_degree
                        (round64 (2 * round64 (real (unat (count_edges * count_edges)))))))
                 (fl (dsub (binary64 (vertex_degree + neighbor_com_tot_degree))
                           (Fin vertex_com_tot_degree))))))"

definition second_phase_delta :: "64 word \<Rightarrow> real \<Rightarrow> real \<Rightarrow> real \<Rightarrow> real \<Rightarrow> real \<Rightarrow> double" where
  "second_phase_delta count_edges vertex_degree vertex_in_neighbor_com_degree
      vertex_in_vertex_com_degree neighbor_com_tot_degree vertex_com_tot_degree =
     fl (dsub
       (fl (dmul (fl (ddiv 1 (round64 (real (unat count_edges)))))
                 (binary64 (vertex_in_neighbor_com_degree - vertex_in_vertex_com_degree))))
       (fl (dmul (fl (ddiv vertex_degree
                        (round64 (2 * round64 (real (unat (count_edges * count_edges)))))))
                 (fl (dsub (binary64 (vertex_degree + neighbor_com_tot_degree))
                           (Fin vertex_com_tot_degree))))))"

text \<open>
  Lines 79-85 and 139-145: the statistics of the old and of the new community and the
  partition entry of the vertex.
\<close>

definition move_vertex ::
  "ustore_key_t \<Rightarrow> ustore_key_t \<Rightarrow> ustore_key_t \<Rightarrow> real \<Rightarrow> (ustore_key_t \<Rightarrow> real) \<Rightarrow> real
     \<Rightarrow> partition_t \<Rightarrow> community_degrees_t \<Rightarrow> partition_t \<times> community_degrees_t" where
  "move_vertex vertex' vertex_community best_com vertex_degree degree_in_coms
      vertex_in_vertex_com_degree partition' community_degrees =
     (let cd1 = index_modify
            (\<lambda>d. d\<lparr>tot_degree := tot_degree d - (vertex_degree - vertex_in_vertex_com_degree)\<rparr>)
            community_degrees vertex_community;
          vertex_in_best_com_degree = degree_in_coms best_com;
          cd2 = index_modify
            (\<lambda>d. d\<lparr>tot_degree := tot_degree d + (vertex_degree - vertex_in_best_com_degree)\<rparr>)
            cd1 best_com;
          cd3 = index_modify
            (\<lambda>d. d\<lparr>in_degree := in_degree d - vertex_in_vertex_com_degree\<rparr>) cd2 vertex_community;
          cd4 = index_modify
            (\<lambda>d. d\<lparr>in_degree := in_degree d + vertex_in_best_com_degree\<rparr>) cd3 best_com
      in (AList.update vertex' best_com partition', cd4))"

subsection \<open>Level 0: \<^verbatim>\<open>first_phase\<close>\<close>

text \<open>Lines 58-59: the tally \<^verbatim>\<open>degree_in_coms\<close>, a local map that is only indexed, is a
  function with the value-initialised 0 outside its entries.\<close>

fun first_phase_tally ::
  "partition_t \<Rightarrow> (ustore_key_t \<Rightarrow> real) \<Rightarrow> ustore_key_t list
     \<Rightarrow> partition_t \<times> (ustore_key_t \<Rightarrow> real)" where
  "first_phase_tally partition' degree_in_coms [] = (partition', degree_in_coms)"
| "first_phase_tally partition' degree_in_coms (neighbor # rest) =
     (let c = index_get 0 partition' neighbor
      in first_phase_tally (index_touch 0 partition' neighbor)
           (degree_in_coms(c := degree_in_coms c + 1)) rest)"

text \<open>Lines 62-77. Every neighbour is a key of the partition after the tally, so
  \<^verbatim>\<open>partition[neighbor]\<close> inserts nothing here.\<close>

fun first_phase_candidates ::
  "64 word \<Rightarrow> partition_t \<Rightarrow> real \<Rightarrow> ustore_key_t \<Rightarrow> real \<Rightarrow> (ustore_key_t \<Rightarrow> real) \<Rightarrow> real
     \<Rightarrow> community_degrees_t \<Rightarrow> double \<Rightarrow> ustore_key_t \<Rightarrow> ustore_key_t list
     \<Rightarrow> community_degrees_t \<times> double \<times> ustore_key_t" where
  "first_phase_candidates count_edges partition' vertex_degree vertex_community
      vertex_com_tot_degree degree_in_coms vertex_in_vertex_com_degree
      community_degrees best_mod best_com [] = (community_degrees, best_mod, best_com)"
| "first_phase_candidates count_edges partition' vertex_degree vertex_community
      vertex_com_tot_degree degree_in_coms vertex_in_vertex_com_degree
      community_degrees best_mod best_com (neighbor # rest) =
     (let neighbor_community = index_get 0 partition' neighbor
      in if vertex_community = neighbor_community
         then first_phase_candidates count_edges partition' vertex_degree vertex_community
                vertex_com_tot_degree degree_in_coms vertex_in_vertex_com_degree
                community_degrees best_mod best_com rest
         else
           (let neighbor_com_tot_degree =
                  tot_degree (index_get community_degree_0 community_degrees neighbor_community);
                cd1 = index_touch community_degree_0 community_degrees neighbor_community;
                vertex_in_neighbor_com_degree = degree_in_coms neighbor_community;
                delta = first_phase_delta count_edges vertex_degree vertex_in_neighbor_com_degree
                          vertex_in_vertex_com_degree neighbor_com_tot_degree vertex_com_tot_degree
            in if dgt delta best_mod
               then first_phase_candidates count_edges partition' vertex_degree vertex_community
                      vertex_com_tot_degree degree_in_coms vertex_in_vertex_com_degree
                      cd1 delta neighbor_community rest
               else first_phase_candidates count_edges partition' vertex_degree vertex_community
                      vertex_com_tot_degree degree_in_coms vertex_in_vertex_com_degree
                      cd1 best_mod best_com rest))"

text \<open>Lines 49-88, the body of the sweep for one vertex: whether the vertex moved, and the
  tables afterwards.\<close>

definition first_phase_vertex ::
  "graph_collection_t \<Rightarrow> 64 word \<Rightarrow> ustore_key_t \<Rightarrow> tables \<Rightarrow> bool \<times> tables" where
  "first_phase_vertex graph' count_edges vertex' s =
     (let vertex_degree = index_get 0 (t_degrees s) vertex';
          degrees1 = index_touch 0 (t_degrees s) vertex';
          vertex_community = index_get 0 (t_partition s) vertex';
          p1 = index_touch 0 (t_partition s) vertex';
          best_mod = Fin 0;
          best_com = vertex_community;
          vertex_com_tot_degree =
            tot_degree (index_get community_degree_0 (t_community_degrees s) vertex_community);
          cd1 = index_touch community_degree_0 (t_community_degrees s) vertex_community;
          neighbors = neighbors_of graph' vertex';
          (p2, degree_in_coms) = first_phase_tally p1 (\<lambda>c. 0) neighbors;
          vertex_in_vertex_com_degree = degree_in_coms vertex_community;
          (cd2, best_mod, best_com) =
            first_phase_candidates count_edges p2 vertex_degree vertex_community
              vertex_com_tot_degree degree_in_coms vertex_in_vertex_com_degree
              cd1 best_mod best_com neighbors
      in if best_com \<noteq> vertex_community
         then (let (p3, cd3) = move_vertex vertex' vertex_community best_com vertex_degree
                                 degree_in_coms vertex_in_vertex_com_degree p2 cd2
               in (True, \<lparr>t_partition = p3, t_degrees = degrees1, t_community_degrees = cd3\<rparr>))
         else (False, \<lparr>t_partition = p2, t_degrees = degrees1, t_community_degrees = cd2\<rparr>))"

text \<open>Lines 46-90, one sweep over the vertex stream, with the flags \<^verbatim>\<open>modified\<close> and
  \<^verbatim>\<open>improvement\<close>.\<close>

fun first_phase_sweep ::
  "graph_collection_t \<Rightarrow> 64 word \<Rightarrow> ustore_key_t list \<Rightarrow> bool \<times> bool \<times> tables
     \<Rightarrow> bool \<times> bool \<times> tables" where
  "first_phase_sweep graph' count_edges [] st = st"
| "first_phase_sweep graph' count_edges (vertex' # rest) (modified, improvement, s) =
     (case first_phase_vertex graph' count_edges vertex' s of
        (True, s') \<Rightarrow> first_phase_sweep graph' count_edges rest (True, True, s')
      | (False, s') \<Rightarrow> first_phase_sweep graph' count_edges rest (modified, improvement, s'))"

text \<open>Lines 45-91, \<^verbatim>\<open>while (modified)\<close>, entered with \<^verbatim>\<open>modified = true\<close>: each round is one
  sweep. Nothing bounds the number of sweeps; a run that sweeps forever is \<open>None\<close>.\<close>

partial_function (option) first_phase_while ::
  "graph_collection_t \<Rightarrow> 64 word \<Rightarrow> bool \<Rightarrow> tables \<Rightarrow> (bool \<times> tables) option" where
  "first_phase_while graph' count_edges improvement s =
     (case first_phase_sweep graph' count_edges (vertex_stream graph') (False, improvement, s) of
        (modified, improvement', s') \<Rightarrow>
          if modified then first_phase_while graph' count_edges improvement' s'
          else Some (improvement', s'))"

declare first_phase_while.simps [code]

definition first_phase ::
  "graph_collection_t \<Rightarrow> tables \<Rightarrow> 64 word \<Rightarrow> (bool \<times> tables) option" where
  "first_phase graph' s count_edges = first_phase_while graph' count_edges False s"

subsection \<open>Level 1 and above: \<^verbatim>\<open>second_phase\<close>\<close>

text \<open>Lines 118-119.\<close>

fun second_phase_tally ::
  "partition_t \<Rightarrow> (ustore_key_t \<Rightarrow> real) \<Rightarrow> (ustore_key_t \<times> real) list
     \<Rightarrow> partition_t \<times> (ustore_key_t \<Rightarrow> real)" where
  "second_phase_tally partition' degree_in_coms [] = (partition', degree_in_coms)"
| "second_phase_tally partition' degree_in_coms (neighbor_iter # rest) =
     (let c = index_get 0 partition' (fst neighbor_iter)
      in second_phase_tally (index_touch 0 partition' (fst neighbor_iter))
           (degree_in_coms(c := degree_in_coms c + snd neighbor_iter)) rest)"

text \<open>Lines 122-137.\<close>

fun second_phase_candidates ::
  "64 word \<Rightarrow> partition_t \<Rightarrow> real \<Rightarrow> ustore_key_t \<Rightarrow> real \<Rightarrow> (ustore_key_t \<Rightarrow> real) \<Rightarrow> real
     \<Rightarrow> community_degrees_t \<Rightarrow> double \<Rightarrow> ustore_key_t \<Rightarrow> (ustore_key_t \<times> real) list
     \<Rightarrow> community_degrees_t \<times> double \<times> ustore_key_t" where
  "second_phase_candidates count_edges partition' vertex_degree vertex_community
      vertex_com_tot_degree degree_in_coms vertex_in_vertex_com_degree
      community_degrees best_mod best_com [] = (community_degrees, best_mod, best_com)"
| "second_phase_candidates count_edges partition' vertex_degree vertex_community
      vertex_com_tot_degree degree_in_coms vertex_in_vertex_com_degree
      community_degrees best_mod best_com (neighbor_iter # rest) =
     (let neighbor_community = index_get 0 partition' (fst neighbor_iter)
      in if vertex_community = neighbor_community
         then second_phase_candidates count_edges partition' vertex_degree vertex_community
                vertex_com_tot_degree degree_in_coms vertex_in_vertex_com_degree
                community_degrees best_mod best_com rest
         else
           (let neighbor_com_tot_degree =
                  tot_degree (index_get community_degree_0 community_degrees neighbor_community);
                cd1 = index_touch community_degree_0 community_degrees neighbor_community;
                vertex_in_neighbor_com_degree = degree_in_coms neighbor_community;
                delta = second_phase_delta count_edges vertex_degree vertex_in_neighbor_com_degree
                          vertex_in_vertex_com_degree neighbor_com_tot_degree vertex_com_tot_degree
            in if dgt delta best_mod
               then second_phase_candidates count_edges partition' vertex_degree vertex_community
                      vertex_com_tot_degree degree_in_coms vertex_in_vertex_com_degree
                      cd1 delta neighbor_community rest
               else second_phase_candidates count_edges partition' vertex_degree vertex_community
                      vertex_com_tot_degree degree_in_coms vertex_in_vertex_com_degree
                      cd1 best_mod best_com rest))"

text \<open>Lines 109-148, the body of the sweep for one entry of the coarsened graph.\<close>

definition second_phase_vertex ::
  "64 word \<Rightarrow> ustore_key_t \<times> (ustore_key_t \<times> real) list \<Rightarrow> tables \<Rightarrow> bool \<times> tables" where
  "second_phase_vertex count_edges graph_iter s =
     (let vertex' = fst graph_iter;
          neighbors = snd graph_iter;
          vertex_degree = index_get 0 (t_degrees s) vertex';
          degrees1 = index_touch 0 (t_degrees s) vertex';
          vertex_community = index_get 0 (t_partition s) vertex';
          p1 = index_touch 0 (t_partition s) vertex';
          best_mod = Fin 0;
          best_com = vertex_community;
          vertex_com_tot_degree =
            tot_degree (index_get community_degree_0 (t_community_degrees s) vertex_community);
          cd1 = index_touch community_degree_0 (t_community_degrees s) vertex_community;
          (p2, degree_in_coms) = second_phase_tally p1 (\<lambda>c. 0) neighbors;
          vertex_in_vertex_com_degree = degree_in_coms vertex_community;
          (cd2, best_mod, best_com) =
            second_phase_candidates count_edges p2 vertex_degree vertex_community
              vertex_com_tot_degree degree_in_coms vertex_in_vertex_com_degree
              cd1 best_mod best_com neighbors
      in if best_com \<noteq> vertex_community
         then (let (p3, cd3) = move_vertex vertex' vertex_community best_com vertex_degree
                                 degree_in_coms vertex_in_vertex_com_degree p2 cd2
               in (True, \<lparr>t_partition = p3, t_degrees = degrees1, t_community_degrees = cd3\<rparr>))
         else (False, \<lparr>t_partition = p2, t_degrees = degrees1, t_community_degrees = cd2\<rparr>))"

fun second_phase_sweep ::
  "64 word \<Rightarrow> graph_t \<Rightarrow> bool \<times> bool \<times> tables \<Rightarrow> bool \<times> bool \<times> tables" where
  "second_phase_sweep count_edges [] st = st"
| "second_phase_sweep count_edges (graph_iter # rest) (modified, improvement, s) =
     (case second_phase_vertex count_edges graph_iter s of
        (True, s') \<Rightarrow> second_phase_sweep count_edges rest (True, True, s')
      | (False, s') \<Rightarrow> second_phase_sweep count_edges rest (modified, improvement, s'))"

partial_function (option) second_phase_while ::
  "graph_t \<Rightarrow> 64 word \<Rightarrow> bool \<Rightarrow> tables \<Rightarrow> (bool \<times> tables) option" where
  "second_phase_while graph' count_edges improvement s =
     (case second_phase_sweep count_edges graph' (False, improvement, s) of
        (modified, improvement', s') \<Rightarrow>
          if modified then second_phase_while graph' count_edges improvement' s'
          else Some (improvement', s'))"

declare second_phase_while.simps [code]

definition second_phase :: "graph_t \<Rightarrow> tables \<Rightarrow> 64 word \<Rightarrow> (bool \<times> tables) option" where
  "second_phase graph' s count_edges = second_phase_while graph' count_edges False s"

section \<open>Graph Inducer\<close>

text \<open>\<^verbatim>\<open>induced_graph[a][b] += w\<close>: both levels of the nested map insert a missing key
  first (an empty adjacency, the weight 0).\<close>

definition add_weight :: "graph_t \<Rightarrow> ustore_key_t \<Rightarrow> ustore_key_t \<Rightarrow> real \<Rightarrow> graph_t" where
  "add_weight induced_graph a b w =
     (let adjacency = index_get [] induced_graph a
      in AList.update a (AList.update b (index_get 0 adjacency b + w) adjacency) induced_graph)"

text \<open>Lines 166-185, the variant that reads the store.\<close>

fun induce_store_neighbors ::
  "partition_t \<Rightarrow> ustore_key_t \<Rightarrow> graph_t \<Rightarrow> ustore_key_t list \<Rightarrow> error + graph_t" where
  "induce_store_neighbors partition' vertex_com induced_graph [] = Inr induced_graph"
| "induce_store_neighbors partition' vertex_com induced_graph (neighbor # rest) =
     (case map_of partition' neighbor of
        None \<Rightarrow> Inl OutOfRange
      | Some neighbor_com \<Rightarrow>
          if vertex_com = neighbor_com
          then induce_store_neighbors partition' vertex_com induced_graph rest
          else induce_store_neighbors partition' vertex_com
                 (add_weight induced_graph vertex_com neighbor_com 1) rest)"

fun induce_store_vertices ::
  "graph_collection_t \<Rightarrow> partition_t \<Rightarrow> graph_t \<Rightarrow> ustore_key_t list \<Rightarrow> error + graph_t" where
  "induce_store_vertices graph' partition' induced_graph [] = Inr induced_graph"
| "induce_store_vertices graph' partition' induced_graph (vertex' # rest) =
     (case map_of partition' vertex' of
        None \<Rightarrow> Inl OutOfRange
      | Some vertex_com \<Rightarrow>
          (case induce_store_neighbors partition' vertex_com induced_graph
                  (neighbors_of graph' vertex') of
             Inl e \<Rightarrow> Inl e
           | Inr induced_graph' \<Rightarrow> induce_store_vertices graph' partition' induced_graph' rest))"

definition induce_community_graph_store ::
  "graph_collection_t \<Rightarrow> partition_t \<Rightarrow> error + graph_t" where
  "induce_community_graph_store graph' partition' =
     induce_store_vertices graph' partition' [] (vertex_stream graph')"

text \<open>Lines 187-201, the variant that reads a coarsened graph.\<close>

fun induce_graph_neighbors ::
  "partition_t \<Rightarrow> ustore_key_t \<Rightarrow> graph_t \<Rightarrow> (ustore_key_t \<times> real) list \<Rightarrow> error + graph_t" where
  "induce_graph_neighbors partition' vertex_com induced_graph [] = Inr induced_graph"
| "induce_graph_neighbors partition' vertex_com induced_graph (neighbor_iter # rest) =
     (case map_of partition' (fst neighbor_iter) of
        None \<Rightarrow> Inl OutOfRange
      | Some neighbor_com \<Rightarrow>
          if vertex_com = neighbor_com
          then induce_graph_neighbors partition' vertex_com induced_graph rest
          else induce_graph_neighbors partition' vertex_com
                 (add_weight induced_graph vertex_com neighbor_com (snd neighbor_iter)) rest)"

fun induce_graph_vertices :: "partition_t \<Rightarrow> graph_t \<Rightarrow> graph_t \<Rightarrow> error + graph_t" where
  "induce_graph_vertices partition' induced_graph [] = Inr induced_graph"
| "induce_graph_vertices partition' induced_graph (graph_iter # rest) =
     (case map_of partition' (fst graph_iter) of
        None \<Rightarrow> Inl OutOfRange
      | Some vertex_com \<Rightarrow>
          (case induce_graph_neighbors partition' vertex_com induced_graph (snd graph_iter) of
             Inl e \<Rightarrow> Inl e
           | Inr induced_graph' \<Rightarrow> induce_graph_vertices partition' induced_graph' rest))"

definition induce_community_graph :: "graph_t \<Rightarrow> partition_t \<Rightarrow> error + graph_t" where
  "induce_community_graph graph' partition' = induce_graph_vertices partition' [] graph'"

section \<open>Multilevel Driver\<close>

text \<open>Lines 218-228: the identity partition, the degree of every vertex, and one community
  per vertex with \<^verbatim>\<open>{0, degree}\<close>, batch by batch.\<close>

fun initialize_batch :: "graph_collection_t \<Rightarrow> ustore_key_t list \<Rightarrow> tables \<Rightarrow> tables" where
  "initialize_batch graph_collection [] s = s"
| "initialize_batch graph_collection (v # vertices) s =
     initialize_batch graph_collection vertices
       \<lparr>t_partition = AList.update v v (t_partition s),
        t_degrees = AList.update v (degree_of graph_collection v) (t_degrees s),
        t_community_degrees =
          AList.update v \<lparr>in_degree = 0, tot_degree = degree_of graph_collection v\<rparr>
            (t_community_degrees s)\<rparr>"

fun initialize_batches :: "graph_collection_t \<Rightarrow> ustore_key_t list list \<Rightarrow> tables \<Rightarrow> tables" where
  "initialize_batches graph_collection [] s = s"
| "initialize_batches graph_collection (vertices # rest) s =
     initialize_batches graph_collection rest (initialize_batch graph_collection vertices s)"

definition initialize :: "graph_collection_t \<Rightarrow> tables" where
  "initialize graph_collection =
     initialize_batches graph_collection (keys_batches graph_collection)
       \<lparr>t_partition = [], t_degrees = [], t_community_degrees = []\<rparr>"

text \<open>
  Lines 236-253: the tables of a level from its coarsened graph. \<^verbatim>\<open>degree_sum\<close> is declared
  with \<^verbatim>\<open>auto degree_sum = 0\<close>, an \<^verbatim>\<open>int\<close>: each \<^verbatim>\<open>degree_sum += degree\<close> adds in
  \<^verbatim>\<open>double\<close> and truncates the sum towards zero (a sum outside the range of \<^verbatim>\<open>int\<close> is
  undefined behaviour and not modelled).
\<close>

definition trunc :: "real \<Rightarrow> int" where
  "trunc x = (if 0 \<le> x then \<lfloor>x\<rfloor> else \<lceil>x\<rceil>)"

fun level_degree :: "real \<Rightarrow> 64 word \<Rightarrow> (ustore_key_t \<times> real) list \<Rightarrow> real \<times> 64 word" where
  "level_degree degree count_edges [] = (degree, count_edges)"
| "level_degree degree count_edges (neighbor_iter # rest) =
     level_degree (degree + snd neighbor_iter) (count_edges + 1) rest"

fun level_tables :: "graph_t \<Rightarrow> tables \<times> int \<times> 64 word \<Rightarrow> tables \<times> int \<times> 64 word" where
  "level_tables [] st = st"
| "level_tables (graph_iter # rest) (s, degree_sum, count_edges) =
     (case level_degree 0 count_edges (snd graph_iter) of
        (degree, count_edges') \<Rightarrow>
          level_tables rest
            (\<lparr>t_partition = AList.update (fst graph_iter) (fst graph_iter) (t_partition s),
              t_degrees = AList.update (fst graph_iter) degree (t_degrees s),
              t_community_degrees =
                AList.update (fst graph_iter) \<lparr>in_degree = 0, tot_degree = degree\<rparr>
                  (t_community_degrees s)\<rparr>,
             trunc (real_of_int degree_sum + degree),
             count_edges'))"

text \<open>
  Lines 235-263, \<^verbatim>\<open>while (improvement)\<close>. \<^verbatim>\<open>partitions.insert(partitions.begin(), ...)\<close> puts
  the newest, coarsest partition first. \<^verbatim>\<open>count_edges / 2\<close> is unsigned division,
  \<^verbatim>\<open>degree_sum / 2\<close> is \<^verbatim>\<open>int\<close> division, which truncates towards zero.
  \<^verbatim>\<open>min_modularity_growth\<close> is a \<^verbatim>\<open>float\<close>, a finite value.
\<close>

partial_function (option) best_partition_while ::
  "real \<Rightarrow> bool \<Rightarrow> graph_t \<Rightarrow> double \<Rightarrow> partition_t list \<Rightarrow> (error + partition_t list) option"
where
  "best_partition_while min_modularity_growth improvement graph' mod' partitions =
     (if \<not> improvement then Some (Inr partitions)
      else
        (case level_tables graph'
                (\<lparr>t_partition = [], t_degrees = [], t_community_degrees = []\<rparr>, 0, 0) of
           (s, degree_sum, count_edges) \<Rightarrow>
             (case second_phase graph' s (count_edges div 2) of
                None \<Rightarrow> None
              | Some (improvement', s') \<Rightarrow>
                  (case modularity (t_partition s') (t_community_degrees s')
                          (real_of_int (degree_sum sdiv 2)) of
                     Inl e \<Rightarrow> Some (Inl e)
                   | Inr new_mod \<Rightarrow>
                       if dle (dsub new_mod mod') (Fin min_modularity_growth)
                       then Some (Inr partitions)
                       else
                         (case induce_community_graph graph' (t_partition s') of
                            Inl e \<Rightarrow> Some (Inl e)
                          | Inr graph'' \<Rightarrow>
                              best_partition_while min_modularity_growth improvement' graph''
                                new_mod (t_partition s' # partitions))))))"

declare best_partition_while.simps [code]

text \<open>Lines 265-270. The inner loop visits the entries of \<^verbatim>\<open>partitions[index]\<close> and
  overwrites each value with \<^verbatim>\<open>partition[iter.second]\<close>, a read that inserts a missing
  community into the working copy \<^verbatim>\<open>partition\<close> with the value 0.\<close>

fun flatten_level :: "partition_t \<Rightarrow> partition_t \<Rightarrow> partition_t \<Rightarrow> partition_t" where
  "flatten_level partition' level [] = level"
| "flatten_level partition' level (iter # rest) =
     flatten_level (index_touch 0 partition' (snd iter))
       (AList.update (fst iter) (index_get 0 partition' (snd iter)) level) rest"

fun flatten_levels :: "partition_t \<Rightarrow> partition_t list \<Rightarrow> partition_t" where
  "flatten_levels partition' [] = partition'"
| "flatten_levels partition' (level # rest) =
     flatten_levels (flatten_level partition' level level) rest"

text \<open>\<^verbatim>\<open>partitions[0]\<close> exists: the stack always holds the level-0 partition.\<close>

fun flatten :: "partition_t list \<Rightarrow> partition_t" where
  "flatten [] = []"
| "flatten (coarsest # rest) = flatten_levels coarsest rest"

text \<open>Lines 203-273. The default of \<^verbatim>\<open>min_modularity_growth\<close> is the \<^verbatim>\<open>float\<close> nearest to
  the literal \<^verbatim>\<open>0.0000001\<close>, which is \<open>14073749 / 2^47\<close>.\<close>

definition best_partition :: "graph_collection_t \<Rightarrow> real \<Rightarrow> (error + partition_t) option" where
  "best_partition graph_collection min_modularity_growth =
     (let count_edges = number_of_edges graph_collection
      in case first_phase graph_collection (initialize graph_collection) count_edges of
           None \<Rightarrow> None
         | Some (improvement, s) \<Rightarrow>
             (case modularity (t_partition s) (t_community_degrees s) (real (unat count_edges)) of
                Inl e \<Rightarrow> Some (Inl e)
              | Inr mod' \<Rightarrow>
                  (case induce_community_graph_store graph_collection (t_partition s) of
                     Inl e \<Rightarrow> Some (Inl e)
                   | Inr graph' \<Rightarrow>
                       (case best_partition_while min_modularity_growth improvement graph' mod'
                               [t_partition s] of
                          None \<Rightarrow> None
                        | Some (Inl e) \<Rightarrow> Some (Inl e)
                        | Some (Inr partitions) \<Rightarrow> Some (Inr (flatten partitions))))))"

definition default_min_modularity_growth :: real where
  "default_min_modularity_growth = 14073749 / 2 ^ 47"

text \<open>
  For the statement of properties of the flattening: the vertex of a level that an
  original vertex belongs to, through the partitions of the finer levels (coarsest first,
  as in the stack).
\<close>

fun level_of :: "partition_t list \<Rightarrow> ustore_key_t \<Rightarrow> ustore_key_t option" where
  "level_of [] u = Some u"
| "level_of (level # finer) u =
     (case level_of finer u of None \<Rightarrow> None | Some w \<Rightarrow> map_of level w)"

section \<open>Notions for the properties of the Local-Move Engine\<close>

text \<open>
  The store read as a graph with unit weights (the Level-0 sweep is the in-memory sweep
  over it), the tally of one vertex, the tables after the reads of one sweep body, the
  community the body chooses, and the two conditions of the idempotence property: every
  key that a sweep reads is present, and no vertex has a neighbouring community with a
  strictly positive delta.
\<close>

definition unit_weights :: "ustore_key_t list \<Rightarrow> (ustore_key_t \<times> real) list" where
  "unit_weights neighbors = map (\<lambda>neighbor. (neighbor, 1)) neighbors"

definition store_graph :: "graph_collection_t \<Rightarrow> graph_t" where
  "store_graph graph' =
     map (\<lambda>vertex'. (vertex', unit_weights (neighbors_of graph' vertex'))) (vertex_stream graph')"

definition tally :: "partition_t \<Rightarrow> (ustore_key_t \<times> real) list \<Rightarrow> ustore_key_t \<Rightarrow> real" where
  "tally partition' neighbors c =
     (\<Sum>neighbor_iter\<leftarrow>neighbors.
        if index_get 0 partition' (fst neighbor_iter) = c then snd neighbor_iter else 0)"

definition touched_partition ::
  "partition_t \<Rightarrow> ustore_key_t \<Rightarrow> (ustore_key_t \<times> real) list \<Rightarrow> partition_t" where
  "touched_partition partition' vertex' neighbors =
     foldl (index_touch 0) partition' (vertex' # map fst neighbors)"

definition touched_stats ::
  "community_degrees_t \<Rightarrow> partition_t \<Rightarrow> ustore_key_t \<Rightarrow> (ustore_key_t \<times> real) list
     \<Rightarrow> community_degrees_t" where
  "touched_stats community_degrees partition' vertex' neighbors =
     foldl (index_touch community_degree_0) community_degrees
       (index_get 0 partition' vertex' #
        map (\<lambda>neighbor_iter. index_get 0 partition' (fst neighbor_iter))
          (filter (\<lambda>neighbor_iter.
              index_get 0 partition' (fst neighbor_iter) \<noteq> index_get 0 partition' vertex')
            neighbors))"

definition chosen_community ::
  "64 word \<Rightarrow> ustore_key_t \<times> (ustore_key_t \<times> real) list \<Rightarrow> tables \<Rightarrow> ustore_key_t" where
  "chosen_community count_edges graph_iter s =
     (let vertex' = fst graph_iter;
          neighbors = snd graph_iter;
          vertex_community = index_get 0 (t_partition s) vertex'
      in snd (snd (second_phase_candidates count_edges
           (touched_partition (t_partition s) vertex' neighbors)
           (index_get 0 (t_degrees s) vertex') vertex_community
           (tot_degree (index_get community_degree_0 (t_community_degrees s) vertex_community))
           (tally (t_partition s) neighbors) (tally (t_partition s) neighbors vertex_community)
           (index_touch community_degree_0 (t_community_degrees s) vertex_community)
           (Fin 0) vertex_community neighbors)))"

definition tables_closed :: "graph_t \<Rightarrow> tables \<Rightarrow> bool" where
  "tables_closed graph' s =
     (\<forall>graph_iter \<in> set graph'.
        fst graph_iter \<in> fst ` set (t_degrees s)
        \<and> fst graph_iter \<in> fst ` set (t_partition s)
        \<and> index_get 0 (t_partition s) (fst graph_iter) \<in> fst ` set (t_community_degrees s)
        \<and> (\<forall>neighbor_iter \<in> set (snd graph_iter).
              fst neighbor_iter \<in> fst ` set (t_partition s)
              \<and> index_get 0 (t_partition s) (fst neighbor_iter)
                    \<in> fst ` set (t_community_degrees s)))"

definition locally_optimal :: "64 word \<Rightarrow> graph_t \<Rightarrow> tables \<Rightarrow> bool" where
  "locally_optimal count_edges graph' s =
     (\<forall>graph_iter \<in> set graph'. \<forall>neighbor_iter \<in> set (snd graph_iter).
        index_get 0 (t_partition s) (fst neighbor_iter) \<noteq> index_get 0 (t_partition s) (fst graph_iter)
        \<longrightarrow>
        \<not> dgt (second_phase_delta count_edges
                 (index_get 0 (t_degrees s) (fst graph_iter))
                 (tally (t_partition s) (snd graph_iter)
                    (index_get 0 (t_partition s) (fst neighbor_iter)))
                 (tally (t_partition s) (snd graph_iter)
                    (index_get 0 (t_partition s) (fst graph_iter)))
                 (tot_degree (index_get community_degree_0 (t_community_degrees s)
                    (index_get 0 (t_partition s) (fst neighbor_iter))))
                 (tot_degree (index_get community_degree_0 (t_community_degrees s)
                    (index_get 0 (t_partition s) (fst graph_iter)))))
               (Fin 0))"

text \<open>The delta as the specification writes it, over the reals, with \<open>E\<close> the edge count
  of the level.\<close>

definition delta_formula :: "real \<Rightarrow> real \<Rightarrow> real \<Rightarrow> real \<Rightarrow> real \<Rightarrow> real \<Rightarrow> real" where
  "delta_formula E vertex_degree degree_in_neighbor_com degree_in_own_com
      neighbor_com_total_degree own_com_total_degree =
     (1 / E) * (degree_in_neighbor_com - degree_in_own_com)
     - (vertex_degree / (2 * E\<^sup>2))
       * (vertex_degree + neighbor_com_total_degree - own_com_total_degree)"

text \<open>The sums of the degree-conservation property.\<close>

definition total_degree_sum :: "community_degrees_t \<Rightarrow> real" where
  "total_degree_sum community_degrees =
     (\<Sum>c \<in> fst ` set community_degrees.
        tot_degree (index_get community_degree_0 community_degrees c))"

definition vertex_degree_sum :: "vertex_degrees_t \<Rightarrow> real" where
  "vertex_degree_sum degrees = (\<Sum>v \<in> fst ` set degrees. index_get 0 degrees v)"

text \<open>
  For the invariant of the Community Degree Stats: the weight of the edges from one
  adjacency into a vertex, the adjacency of a vertex, the weight of an adjacency, and an
  undirected graph (one entry per vertex, neighbours among the vertices, non-negative
  symmetric weights). The states of a level are those reached from its initial tables by
  sweep bodies, on any sequence of entries of the graph.
\<close>

definition edge_weight :: "(ustore_key_t \<times> real) list \<Rightarrow> ustore_key_t \<Rightarrow> real" where
  "edge_weight neighbors v =
     (\<Sum>neighbor_iter\<leftarrow>neighbors. if fst neighbor_iter = v then snd neighbor_iter else 0)"

definition adjacency :: "graph_t \<Rightarrow> ustore_key_t \<Rightarrow> (ustore_key_t \<times> real) list" where
  "adjacency graph' u = index_get [] graph' u"

definition adjacency_weight :: "(ustore_key_t \<times> real) list \<Rightarrow> real" where
  "adjacency_weight neighbors = (\<Sum>neighbor_iter\<leftarrow>neighbors. snd neighbor_iter)"

definition undirected :: "graph_t \<Rightarrow> bool" where
  "undirected graph' =
     (distinct (map fst graph')
      \<and> (\<forall>graph_iter \<in> set graph'.
            fst ` set (snd graph_iter) \<subseteq> fst ` set graph'
            \<and> (\<forall>neighbor_iter \<in> set (snd graph_iter). 0 \<le> snd neighbor_iter))
      \<and> (\<forall>u \<in> fst ` set graph'. \<forall>v \<in> fst ` set graph'.
            edge_weight (adjacency graph' u) v = edge_weight (adjacency graph' v) u))"

definition second_phase_bodies :: "64 word \<Rightarrow> graph_t \<Rightarrow> tables \<Rightarrow> tables" where
  "second_phase_bodies count_edges visited s =
     fold (\<lambda>graph_iter s. snd (second_phase_vertex count_edges graph_iter s)) visited s"

definition first_phase_bodies ::
  "graph_collection_t \<Rightarrow> 64 word \<Rightarrow> ustore_key_t list \<Rightarrow> tables \<Rightarrow> tables" where
  "first_phase_bodies graph' count_edges visited s =
     fold (\<lambda>vertex' s. snd (first_phase_vertex graph' count_edges vertex' s)) visited s"

definition level_start :: "graph_t \<Rightarrow> tables" where
  "level_start graph' =
     fst (level_tables graph'
            (\<lparr>t_partition = [], t_degrees = [], t_community_degrees = []\<rparr>, 0, 0))"

text \<open>The invariant: the degree of a vertex bounds the weight of its adjacency, and in every
  community \<open>tot_degree - in_degree\<close> bounds the weight that leaves the community.\<close>

definition boundary :: "graph_t \<Rightarrow> tables \<Rightarrow> ustore_key_t \<Rightarrow> real" where
  "boundary graph' s c =
     (\<Sum>u \<in> fst ` set graph'.
        if index_get 0 (t_partition s) u = c
        then index_get 0 (t_degrees s) u - tally (t_partition s) (adjacency graph' u) c
        else 0)"

definition stats_invariant :: "graph_t \<Rightarrow> tables \<Rightarrow> bool" where
  "stats_invariant graph' s =
     ((\<forall>u \<in> fst ` set graph'.
         adjacency_weight (adjacency graph' u) \<le> index_get 0 (t_degrees s) u)
      \<and> (\<forall>c. boundary graph' s c \<le>
            tot_degree (index_get community_degree_0 (t_community_degrees s) c)
            - in_degree (index_get community_degree_0 (t_community_degrees s) c)))"

text \<open>The internal degree of a community in the words of the specification: twice the
  weight of the edges with both endpoints inside (every edge is in the adjacency of both
  its endpoints).\<close>

definition internal_degree_twice :: "graph_t \<Rightarrow> partition_t \<Rightarrow> ustore_key_t \<Rightarrow> real" where
  "internal_degree_twice graph' partition' c =
     (\<Sum>graph_iter\<leftarrow>graph'.
        if index_get 0 partition' (fst graph_iter) = c
        then tally partition' (snd graph_iter) c else 0)"

section \<open>Evaluation of the binary64 rounding\<close>

lemma canonical_code [code]:
  "canonical (Ratreal r) = (case quotient_of r of (a, b) \<Rightarrow> real_of_int a / real_of_int b)"
proof (cases "quotient_of r")
  case (Pair a b)
  then have "r = of_int a / of_int b" by (rule quotient_of_div)
  then have "real_of_rat r = real_of_int a / real_of_int b" by (simp add: of_rat_divide)
  with Pair show ?thesis by (simp add: canonical_def Ratreal_def)
qed

lemma pow2_code [code]:
  "pow2 e = (if 0 \<le> e then real_of_int (2 ^ nat e) else 1 / real_of_int (2 ^ nat (- e)))"
  by (simp add: pow2_def)

lemma exponent_up_code [code]:
  "exponent_up x = (if x < 2 then 0 else 1 + exponent_up (canonical (x / 2)))"
  by (simp add: canonical_def)

lemma exponent_down_code [code]:
  "exponent_down x = (if x \<le> 0 \<or> 1 \<le> x then 0 else exponent_down (canonical (2 * x)) - 1)"
  by (simp add: canonical_def)

lemma round_to_spacing_code [code]:
  "round_to_spacing x q = canonical (of_int (round_ties_even (canonical (x / q))) * q)"
  by (simp add: canonical_def round_to_spacing_def)

lemma binary64_code [code]:
  "binary64 x = overflow64 (round64 (canonical x))"
  by (simp add: canonical_def binary64_def)

declare exponent_up.simps [simp del]

declare exponent_down.simps [simp del]

section \<open>Properties of the modularity evaluator\<close>

lemma modularity_loop_finite:
  assumes "m \<noteq> 0" and "snd ` set p \<subseteq> fst ` set cd"
  shows "modularity_loop cd ds m (Fin (1 / (m * m))) (Fin r) p =
     Inr (Fin (r + (\<Sum>iter\<leftarrow>p.
        (tot_degree (index_get community_degree_0 cd (snd iter))
           - in_degree (index_get community_degree_0 cd (snd iter))) / m
        - ds * ds * (1 / (m * m)))))"
  using assms
proof (induction p arbitrary: r)
  case Nil
  then show ?case by simp
next
  case (Cons iter p)
  from Cons.prems obtain d where d: "map_of cd (snd iter) = Some d"
    by (metis domD dom_map_of_conv_image_fst insert_subset list.simps(15) image_insert)
  have rest: "snd ` set p \<subseteq> fst ` set cd"
    using Cons.prems by auto
  show ?case
    using Cons.IH [OF Cons.prems(1) rest] d Cons.prems(1)
    by (simp add: index_get_def dsub_def ddiv_def algebra_simps)
qed

lemma sum_list_by_community:
  fixes g :: "ustore_key_t \<Rightarrow> real"
  shows "(\<Sum>iter\<leftarrow>p. g (snd iter)) = (\<Sum>c \<in> snd ` set p. real (members p c) * g c)"
proof (induction p)
  case Nil
  then show ?case by simp
next
  case (Cons iter p)
  let ?c = "snd iter"
  let ?S = "snd ` set p"
  have fin: "finite ?S" by simp
  have split: "(\<Sum>c \<in> insert ?c ?S. real (members (iter # p) c) * g c) =
      real (members (iter # p) ?c) * g ?c + (\<Sum>c \<in> ?S - {?c}. real (members (iter # p) c) * g c)"
    using fin by (simp add: sum.insert_remove)
  have others: "(\<Sum>c \<in> ?S - {?c}. real (members (iter # p) c) * g c) =
      (\<Sum>c \<in> ?S - {?c}. real (members p c) * g c)"
    by (rule sum.cong) (auto simp: members_def)
  have here: "real (members (iter # p) ?c) * g ?c = g ?c + real (members p ?c) * g ?c"
    by (simp add: members_def algebra_simps)
  have regroup: "real (members p ?c) * g ?c + (\<Sum>c \<in> ?S - {?c}. real (members p c) * g c) =
      (\<Sum>c \<in> ?S. real (members p c) * g c)"
  proof (cases "?c \<in> ?S")
    case True
    then show ?thesis using fin by (simp add: sum.remove)
  next
    case False
    then have "members p ?c = 0"
      by (auto simp: members_def filter_empty_conv image_iff)
    with False show ?thesis by simp
  qed
  show ?case
    using Cons.IH split others here regroup by simp
qed

text \<open>
  C3 (as stated, refuted). Two vertices in the one community 2: the specification's sum
  has one term, \<open>(2 - 0)/1 - 4 = -2\<close>; the evaluator adds that term once for each of the two
  vertices and returns \<open>-4\<close>.
\<close>

theorem modularity_one_term_per_community_counterexample:
  "modularity [(1, 2), (2, 2)] [(2, \<lparr>in_degree = 0, tot_degree = 2\<rparr>)] 2 = Inr (Fin (- 4))
   \<and> modularity_per_community [(1, 2), (2, 2)] [(2, \<lparr>in_degree = 0, tot_degree = 2\<rparr>)] 2 = - 2"
  by (simp add: modularity_def modularity_per_community_def ddiv_def dsub_def index_get_def)

text \<open>
  C3 (amended). With a non-zero \<open>deg_sum\<close> and every community of the partition present
  in the Community Degree Stats, the Modularity Evaluator returns the sum over the
  entries of the Partition (one per vertex) of
  \<open>(total_degree - internal_degree)/m - deg_sum^2/m^2\<close>, taken at the vertex's community,
  with \<open>m = deg_sum/2\<close>: a community contributes its term once for each of its member
  vertices.
\<close>

theorem modularity_one_term_per_vertex:
  assumes "deg_sum \<noteq> 0"
    and "snd ` set partition' \<subseteq> fst ` set community_degrees"
  shows "modularity partition' community_degrees deg_sum =
      Inr (Fin (\<Sum>iter\<leftarrow>partition'. modularity_term community_degrees deg_sum (snd iter)))
    \<and> (\<Sum>iter\<leftarrow>partition'. modularity_term community_degrees deg_sum (snd iter)) =
      (\<Sum>c \<in> snd ` set partition'.
         real (members partition' c) * modularity_term community_degrees deg_sum c)"
proof
  have m: "deg_sum / 2 \<noteq> 0" using assms(1) by simp
  have "modularity partition' community_degrees deg_sum =
      modularity_loop community_degrees deg_sum (deg_sum / 2)
        (Fin (1 / (deg_sum / 2 * (deg_sum / 2)))) (Fin 0) partition'"
    using m by (simp add: modularity_def ddiv_def Let_def)
  also have "\<dots> = Inr (Fin (0 + (\<Sum>iter\<leftarrow>partition'.
        (tot_degree (index_get community_degree_0 community_degrees (snd iter))
           - in_degree (index_get community_degree_0 community_degrees (snd iter))) / (deg_sum / 2)
        - deg_sum * deg_sum * (1 / (deg_sum / 2 * (deg_sum / 2))))))"
    by (rule modularity_loop_finite [OF m assms(2)])
  also have "\<dots> = Inr (Fin (\<Sum>iter\<leftarrow>partition'. modularity_term community_degrees deg_sum (snd iter)))"
    by (simp add: modularity_term_def power2_eq_square)
  finally show "modularity partition' community_degrees deg_sum =
      Inr (Fin (\<Sum>iter\<leftarrow>partition'. modularity_term community_degrees deg_sum (snd iter)))" .
  show "(\<Sum>iter\<leftarrow>partition'. modularity_term community_degrees deg_sum (snd iter)) =
      (\<Sum>c \<in> snd ` set partition'.
         real (members partition' c) * modularity_term community_degrees deg_sum c)"
    by (rule sum_list_by_community)
qed

theorem modularity_one_term_per_vertex_witness:
  "modularity [(1, 2), (2, 2)] [(2, \<lparr>in_degree = 0, tot_degree = 2\<rparr>)] 2 = Inr (Fin (- 4))"
  using modularity_one_term_per_vertex
    [of 2 "[(1, 2), (2, 2)]" "[(2, \<lparr>in_degree = 0, tot_degree = 2\<rparr>)]"]
  by (simp add: modularity_term_def index_get_def)

section \<open>Properties of the modularity delta\<close>

lemma unat_square:
  fixes count_edges :: "64 word"
  assumes "unat count_edges < 4294967296"
  shows "unat (count_edges * count_edges) = unat count_edges * unat count_edges"
proof -
  have le: "unat count_edges \<le> 4294967295" using assms by arith
  have "unat count_edges * unat count_edges \<le> 4294967295 * 4294967295"
    by (rule mult_le_mono [OF le le])
  then have "unat count_edges * unat count_edges < 2 ^ LENGTH(64)" by simp
  then show ?thesis by (simp only: unat_mult_lem)
qed

text \<open>Below \<open>2^32\<close> edges the square does not wrap; both modes evaluate the same expression.\<close>

lemma count_edges_square:
  fixes count_edges :: "64 word"
  assumes "unat count_edges < 4294967296"
  shows "real (unat (count_edges * count_edges)) = (real (unat count_edges))\<^sup>2"
  by (simp only: unat_square [OF assms] power2_eq_square of_nat_mult)

lemma delta_same: "second_phase_delta = first_phase_delta"
  by (intro ext) (simp add: first_phase_delta_def second_phase_delta_def)

text \<open>Below \<open>2^32\<close> edges the delta is the formula of the specification at \<open>E\<close>, with each of
  its operations rounded to binary64.\<close>

lemma first_phase_delta_below_2_32:
  fixes count_edges :: "64 word"
  assumes "unat count_edges < 4294967296"
  shows "first_phase_delta count_edges vertex_degree vertex_in_neighbor_com_degree
      vertex_in_vertex_com_degree neighbor_com_tot_degree vertex_com_tot_degree =
     fl (dsub
       (fl (dmul (fl (ddiv 1 (round64 (real (unat count_edges)))))
                 (binary64 (vertex_in_neighbor_com_degree - vertex_in_vertex_com_degree))))
       (fl (dmul (fl (ddiv vertex_degree
                        (round64 (2 * round64 ((real (unat count_edges))\<^sup>2)))))
                 (fl (dsub (binary64 (vertex_degree + neighbor_com_tot_degree))
                           (Fin vertex_com_tot_degree))))))"
  unfolding first_phase_delta_def count_edges_square [OF assms] by (rule refl)

text \<open>
  C5 (the code departs from the claim). With \<open>E = 2^32\<close> edges the product
  \<^verbatim>\<open>count_edges * count_edges\<close> wraps to 0 in \<^verbatim>\<open>std::size_t\<close> before it is converted, the
  second quotient is a division by zero, and the delta of a vertex of degree 1 with one
  edge into the neighbouring community is minus infinity in both modes, where the formula
  of the specification gives a positive value.
\<close>

theorem delta_at_2_32_edges:
  "first_phase_delta (2 ^ 32) 1 1 0 1 1 = NInf
   \<and> second_phase_delta (2 ^ 32) 1 1 0 1 1 = NInf
   \<and> 0 < (1 / 2 ^ 32) * (1 - 0) - (1 / (2 * (2 ^ 32)\<^sup>2)) * (1 + 1 - 1 :: real)"
proof (intro conjI)
  have c1: "real (unat (2 ^ 32 :: 64 word)) = 4294967296" by simp
  have c2: "real (unat ((2 ^ 32 :: 64 word) * 2 ^ 32)) = 0" by simp
  have e: "fl (dsub
       (fl (dmul (fl (ddiv 1 (round64 4294967296))) (binary64 (1 - 0))))
       (fl (dmul (fl (ddiv 1 (round64 (2 * round64 0))))
                 (fl (dsub (binary64 (1 + 1)) (Fin 1)))))) = NInf"
    by code_simp
  show "first_phase_delta (2 ^ 32) 1 1 0 1 1 = NInf"
    unfolding first_phase_delta_def c1 c2 by (rule e)
  show "second_phase_delta (2 ^ 32) 1 1 0 1 1 = NInf"
    unfolding second_phase_delta_def c1 c2 by (rule e)
  show "0 < (1 / 2 ^ 32) * (1 - 0) - (1 / (2 * (2 ^ 32)\<^sup>2)) * (1 + 1 - 1 :: real)" by simp
qed

section \<open>Properties of the driver loop\<close>

text \<open>
  C4. In a round of the driver loop that builds the tables of the level, runs the
  Local-Move Engine and evaluates \<open>new_mod\<close>: when \<open>new_mod - mod <= min_modularity_growth\<close>
  the loop ends with the Partition Stack as it was, the partition of the level not pushed;
  otherwise the next coarsened graph is induced, the partition of the level is pushed in
  front, and the loop goes on with \<open>new_mod\<close> in the place of \<open>mod\<close>.
\<close>

theorem best_partition_while_threshold:
  assumes "level_tables graph'
      (\<lparr>t_partition = [], t_degrees = [], t_community_degrees = []\<rparr>, 0, 0) =
      (s, degree_sum, count_edges)"
    and "second_phase graph' s (count_edges div 2) = Some (improvement', s')"
    and "modularity (t_partition s') (t_community_degrees s') (real_of_int (degree_sum sdiv 2)) =
      Inr new_mod"
  shows "(dle (dsub new_mod mod') (Fin min_modularity_growth) \<longrightarrow>
        best_partition_while min_modularity_growth True graph' mod' partitions =
          Some (Inr partitions))
    \<and> (\<not> dle (dsub new_mod mod') (Fin min_modularity_growth) \<longrightarrow>
        (\<forall>graph''. induce_community_graph graph' (t_partition s') = Inr graph'' \<longrightarrow>
          best_partition_while min_modularity_growth True graph' mod' partitions =
            best_partition_while min_modularity_growth improvement' graph'' new_mod
              (t_partition s' # partitions)))"
  by (subst best_partition_while.simps, simp add: assms)+

theorem best_partition_while_threshold_witness:
  "best_partition_while default_min_modularity_growth True
       [(1, [(2, 1)]), (2, [(1, 1)])] (Fin 0) [[(7, 7)]] = Some (Inr [[(7, 7)]])
   \<and> best_partition_while default_min_modularity_growth True
       [(1, [(2, 1)]), (2, [(1, 1)])] (Fin (- 10)) [[(7, 7)]] =
     best_partition_while default_min_modularity_growth True [] (Fin (- 8))
       [[(1, 2), (2, 2)], [(7, 7)]]"
proof -
  let ?g = "[(1, [(2, 1)]), (2, [(1, 1)])] :: graph_t"
  let ?s = "\<lparr>t_partition = [(1, 1), (2, 2)], t_degrees = [(1, 1), (2, 1)],
     t_community_degrees = [(1, \<lparr>in_degree = 0, tot_degree = 1\<rparr>),
                            (2, \<lparr>in_degree = 0, tot_degree = 1\<rparr>)]\<rparr>"
  let ?s' = "\<lparr>t_partition = [(1, 2), (2, 2)], t_degrees = [(1, 1), (2, 1)],
     t_community_degrees = [(1, \<lparr>in_degree = 0, tot_degree = 0\<rparr>),
                            (2, \<lparr>in_degree = 1, tot_degree = 1\<rparr>)]\<rparr>"
  have h1: "level_tables ?g (\<lparr>t_partition = [], t_degrees = [], t_community_degrees = []\<rparr>, 0, 0)
      = (?s, 2, 2)"
    by code_simp
  have h2: "second_phase ?g ?s (2 div 2) = Some (True, ?s')"
    by code_simp
  have h3: "modularity (t_partition ?s') (t_community_degrees ?s') (real_of_int (2 sdiv 2)) =
      Inr (Fin (- 8))"
    by code_simp
  have h4: "induce_community_graph ?g (t_partition ?s') = Inr []"
    by code_simp
  have stop: "dle (dsub (Fin (- 8)) (Fin 0)) (Fin default_min_modularity_growth)"
    by (simp add: dsub_def default_min_modularity_growth_def)
  have go: "\<not> dle (dsub (Fin (- 8)) (Fin (- 10))) (Fin default_min_modularity_growth)"
    by (simp add: dsub_def default_min_modularity_growth_def)
  from best_partition_while_threshold [OF h1 h2 h3, of "Fin 0" default_min_modularity_growth]
    best_partition_while_threshold [OF h1 h2 h3, of "Fin (- 10)" default_min_modularity_growth]
    stop go h4
  show ?thesis by simp
qed

section \<open>Properties of the tables\<close>

lemma index_get_touch [simp]: "index_get d (index_touch d m k) k' = index_get d m k'"
  by (auto simp: index_get_def index_touch_def split: option.splits if_splits)

lemma keys_touch [simp]: "fst ` set (index_touch d m k) = insert k (fst ` set m)"
proof (cases "map_of m k")
  case None
  then show ?thesis by (simp add: index_touch_def)
next
  case (Some v)
  then have "k \<in> fst ` set m" by (metis map_of_eq_None_iff option.distinct(1))
  with Some show ?thesis by (auto simp: index_touch_def)
qed

lemma touch_present: "k \<in> fst ` set m \<Longrightarrow> index_touch d m k = m"
  by (auto simp: index_touch_def map_of_eq_None_iff split: option.splits)

lemma index_get_absent: "k \<notin> fst ` set m \<Longrightarrow> index_get d m k = d"
  by (simp add: index_get_def map_of_eq_None_iff [symmetric])

lemma index_get_present: "map_of m k = Some v \<Longrightarrow> index_get d m k = v"
  by (simp add: index_get_def)

section \<open>Properties of the Graph Inducer\<close>

lemma keys_add_weight [simp]: "fst ` set (add_weight g a b w) = insert a (fst ` set g)"
  by (simp add: add_weight_def Let_def AList.dom_update)

lemma keys_induce_store_neighbors:
  "induce_store_neighbors p vc ig ns = Inr ig' \<Longrightarrow>
   fst ` set ig' = fst ` set ig \<union> (if \<exists>n \<in> set ns. map_of p n \<noteq> Some vc then {vc} else {})"
proof (induction ns arbitrary: ig)
  case Nil
  then show ?case by simp
next
  case (Cons n ns)
  then show ?case
    by (cases "map_of p n") (auto split: if_splits)
qed

lemma keys_induce_store_vertices:
  "induce_store_vertices g p ig vs = Inr ig' \<Longrightarrow>
   fst ` set ig' = fst ` set ig \<union>
     {c. \<exists>v \<in> set vs. map_of p v = Some c \<and> (\<exists>n \<in> set (neighbors_of g v). map_of p n \<noteq> Some c)}"
proof (induction vs arbitrary: ig)
  case Nil
  then show ?case by simp
next
  case (Cons v vs)
  from Cons.prems obtain vc ig1 where vc: "map_of p v = Some vc"
    and n: "induce_store_neighbors p vc ig (neighbors_of g v) = Inr ig1"
    and r: "induce_store_vertices g p ig1 vs = Inr ig'"
    by (auto split: option.splits sum.splits)
  show ?case
    unfolding Cons.IH [OF r] keys_induce_store_neighbors [OF n]
    using vc by (auto split: if_splits)
qed

lemma keys_induce_graph_neighbors:
  "induce_graph_neighbors p vc ig ns = Inr ig' \<Longrightarrow>
   fst ` set ig' = fst ` set ig \<union> (if \<exists>n \<in> set ns. map_of p (fst n) \<noteq> Some vc then {vc} else {})"
proof (induction ns arbitrary: ig)
  case Nil
  then show ?case by simp
next
  case (Cons n ns)
  then show ?case
    by (cases "map_of p (fst n)") (auto split: if_splits)
qed

lemma keys_induce_graph_vertices:
  "induce_graph_vertices p ig vs = Inr ig' \<Longrightarrow>
   fst ` set ig' = fst ` set ig \<union>
     {c. \<exists>v \<in> set vs. map_of p (fst v) = Some c \<and> (\<exists>n \<in> set (snd v). map_of p (fst n) \<noteq> Some c)}"
proof (induction vs arbitrary: ig)
  case Nil
  then show ?case by simp
next
  case (Cons v vs)
  from Cons.prems obtain vc ig1 where vc: "map_of p (fst v) = Some vc"
    and n: "induce_graph_neighbors p vc ig (snd v) = Inr ig1"
    and r: "induce_graph_vertices p ig1 vs = Inr ig'"
    by (auto split: option.splits sum.splits)
  show ?case
    unfolding Cons.IH [OF r] keys_induce_graph_neighbors [OF n]
    using vc by (auto split: if_splits)
qed

text \<open>The Graph Inducer keeps a community only when one of its vertices has a neighbour in
  another community.\<close>

lemma induce_community_graph_store_keys:
  "induce_community_graph_store g p = Inr ig \<Longrightarrow>
   fst ` set ig =
     {c. \<exists>v \<in> set (vertex_stream g). map_of p v = Some c
           \<and> (\<exists>n \<in> set (neighbors_of g v). map_of p n \<noteq> Some c)}"
  unfolding induce_community_graph_store_def
  by (drule keys_induce_store_vertices) simp

lemma induce_community_graph_keys:
  "induce_community_graph g p = Inr ig \<Longrightarrow>
   fst ` set ig =
     {c. \<exists>v \<in> set g. map_of p (fst v) = Some c \<and> (\<exists>n \<in> set (snd v). map_of p (fst n) \<noteq> Some c)}"
  unfolding induce_community_graph_def
  by (drule keys_induce_graph_vertices) simp

section \<open>Properties of the flattening\<close>

lemma update_fresh_append:
  "fst e \<notin> fst ` set pre \<Longrightarrow> AList.update (fst e) v (pre @ e # es) = pre @ (fst e, v) # es"
  by (induction pre) auto

lemma flatten_level_distinct:
  assumes "distinct (map fst es)" and "fst ` set pre \<inter> fst ` set es = {}"
  shows "flatten_level acc (pre @ es) es = pre @ map (\<lambda>e. (fst e, index_get 0 acc (snd e))) es"
  using assms
proof (induction es arbitrary: pre acc)
  case Nil
  then show ?case by simp
next
  case (Cons e es)
  have fresh: "fst e \<notin> fst ` set pre" using Cons.prems(2) by auto
  have d: "distinct (map fst es)" using Cons.prems(1) by simp
  have disj: "fst ` set (pre @ [(fst e, index_get 0 acc (snd e))]) \<inter> fst ` set es = {}"
    using Cons.prems by auto
  show ?case
    using Cons.IH [OF d disj, of "index_touch 0 acc (snd e)"]
    by (simp add: update_fresh_append [OF fresh])
qed

lemma flatten_level_self:
  "distinct (map fst level) \<Longrightarrow>
   flatten_level acc level level = map (\<lambda>e. (fst e, index_get 0 acc (snd e))) level"
  using flatten_level_distinct [of level "[]" acc] by simp

lemma keys_flatten_level:
  "fst ` set (flatten_level acc level es) = fst ` set level \<union> fst ` set es"
  by (induction es arbitrary: acc level) (auto simp: AList.dom_update)

lemma keys_flatten_levels:
  "fst ` set (flatten_levels acc (ls @ [l])) = fst ` set l"
  by (induction ls arbitrary: acc) (auto simp: keys_flatten_level)

lemma flatten_levels_snoc:
  "flatten_levels acc (ls @ [l]) = flatten_level (flatten_levels acc ls) l l"
  by (induction ls arbitrary: acc) auto


lemma flatten_levels_append:
  "flatten_levels acc (ls @ ms) = flatten_levels (flatten_levels acc ls) ms"
  by (induction ls arbitrary: acc) auto

lemma map_of_flatten_level_self:
  assumes "distinct (map fst level)" and "map_of level w = Some v"
  shows "map_of (flatten_level acc level level) w = Some (index_get 0 acc v)"
proof -
  have "map_of (map (\<lambda>e. (fst e, index_get 0 acc (snd e))) level) w =
      map_option (index_get 0 acc) (map_of level w)"
    by (induction level) auto
  then show ?thesis
    using assms by (simp add: flatten_level_self)
qed

lemma flatten_levels_level_of:
  assumes "\<forall>l \<in> set finer. distinct (map fst l)" and "level_of finer u = Some v"
  shows "index_get 0 (flatten_levels acc finer) u = index_get 0 acc v"
  using assms
proof (induction finer arbitrary: acc v)
  case Nil
  then show ?case by simp
next
  case (Cons l ls)
  from Cons.prems(2) obtain w where w: "level_of ls u = Some w" and v: "map_of l w = Some v"
    by (auto split: option.splits)
  have d: "distinct (map fst l)" and ds: "\<forall>l \<in> set ls. distinct (map fst l)"
    using Cons.prems(1) by auto
  have "index_get 0 (flatten_levels (flatten_level acc l l) ls) u =
      index_get 0 (flatten_level acc l l) w"
    by (rule Cons.IH [OF ds w])
  also have "\<dots> = index_get 0 acc v"
    using map_of_flatten_level_self [OF d v] by (simp add: index_get_def)
  finally show ?case by simp
qed

lemma level_of_key:
  assumes "level_of (ls @ [l]) u = Some v"
  shows "u \<in> fst ` set l"
  using assms
proof (induction ls arbitrary: v)
  case Nil
  then have "map_of l u = Some v" by simp
  then show ?case by (metis map_of_eq_None_iff option.distinct(1))
next
  case (Cons a ls)
  then show ?case by (auto split: option.splits)
qed

lemma keys_flatten_front:
  "fst ` set (flatten (front @ [coarser])) = fst ` set coarser"
  by (cases front) (auto simp: keys_flatten_levels)

lemma flatten_front:
  "flatten (front @ coarser # rest) = flatten_levels (flatten (front @ [coarser])) rest"
  by (cases front) (auto simp: flatten_levels_append)

text \<open>
  C9. During flattening, a vertex of a level whose community is not a key of the
  next-coarser pushed partition receives the value-initialised community id 0 (the read
  \<^verbatim>\<open>partition[iter.second]\<close> inserts the missing key with 0), and so does every
  original vertex that belongs to it through the finer levels: the final mapping sends
  it to 0, not to its own community id. The Graph Inducer keeps a community only when
  one of its vertices has a neighbour in another community
  (\<open>induce_community_graph_store_keys\<close>, \<open>induce_community_graph_keys\<close>), so a community with
  only intra-community edges is missing from the next level; the two-vertex graph with
  one edge is flattened to \<open>{1 \<mapsto> 0, 2 \<mapsto> 0}\<close>.
\<close>

theorem flatten_missing_community:
  assumes "\<forall>l \<in> set (level # finer). distinct (map fst l)"
    and "map_of level v = Some c"
    and "c \<notin> fst ` set coarser"
    and "level_of finer u = Some v"
  shows "map_of (flatten (front @ [coarser, level] @ finer)) u = Some 0"
proof -
  let ?A = "flatten (front @ [coarser])"
  let ?B = "flatten_level ?A level level"
  let ?R = "flatten (front @ [coarser, level] @ finer)"
  have R: "?R = flatten_levels ?B finer"
    using flatten_front [of front coarser "level # finer"] by simp
  have d: "distinct (map fst level)" and ds: "\<forall>l \<in> set finer. distinct (map fst l)"
    using assms(1) by auto
  have "c \<notin> fst ` set ?A" using assms(3) by (simp only: keys_flatten_front not_False_eq_True)
  then have "index_get 0 ?A c = 0" by (rule index_get_absent)
  then have Bv: "map_of ?B v = Some 0"
    using map_of_flatten_level_self [OF d assms(2), of ?A] by simp
  have val: "index_get 0 ?R u = 0"
    using flatten_levels_level_of [OF ds assms(4), of ?B] Bv R by (simp add: index_get_def)
  have key: "u \<in> fst ` set ?R"
  proof (cases finer rule: rev_cases)
    case Nil
    then have "u = v" using assms(4) by simp
    moreover have "v \<in> fst ` set ?B" using Bv by (metis map_of_eq_None_iff option.distinct(1))
    ultimately show ?thesis using R Nil by simp
  next
    case (snoc ls l)
    then have "u \<in> fst ` set l" using level_of_key assms(4) by blast
    then show ?thesis using R snoc by (simp only: keys_flatten_levels)
  qed
  then obtain x where "map_of ?R u = Some x"
    by (metis map_of_eq_None_iff not_Some_eq)
  with val show ?thesis by (simp add: index_get_def)
qed

theorem flatten_missing_community_witness:
  "map_of (flatten [[(5, 5)], [(3, 4)], [(1, 3)]]) 1 = Some 0
   \<and> best_partition
        \<lparr>keys_batches = [[1, 2]],
         neighbors_of = (\<lambda>v. if v = 1 then [2] else if v = 2 then [1] else []),
         degree_of = (\<lambda>v. 1), number_of_edges = 1\<rparr> default_min_modularity_growth =
       Some (Inr [(1, 0), (2, 0)])"
proof
  have h1: "\<forall>l \<in> set ([(3, 4)] # [[(1, 3 :: ustore_key_t)]]). distinct (map fst l)" by simp
  have h2: "map_of [(3, 4)] (3 :: ustore_key_t) = Some (4 :: ustore_key_t)" by simp
  have h3: "(4 :: ustore_key_t) \<notin> fst ` set [(5, 5 :: ustore_key_t)]" by simp
  have h4: "level_of [[(1, 3)]] 1 = Some 3" by simp
  from flatten_missing_community [OF h1 h2 h3 h4, of "[]"]
  show "map_of (flatten [[(5, 5)], [(3, 4)], [(1, 3)]]) 1 = Some 0" by simp
  show "best_partition
        \<lparr>keys_batches = [[1, 2]],
         neighbors_of = (\<lambda>v. if v = 1 then [2] else if v = 2 then [1] else []),
         degree_of = (\<lambda>v. 1), number_of_edges = 1\<rparr> default_min_modularity_growth =
       Some (Inr [(1, 0), (2, 0)])"
    by code_simp
qed

section \<open>Properties of the Local-Move Engine\<close>

lemma first_phase_tally_unit:
  "first_phase_tally p t ns = second_phase_tally p t (unit_weights ns)"
  by (induction ns arbitrary: p t) (simp_all add: unit_weights_def)

lemma first_phase_candidates_unit:
  "first_phase_candidates E p vd vc vt t tv cd bm bc ns =
   second_phase_candidates E p vd vc vt t tv cd bm bc (unit_weights ns)"
proof (induction ns arbitrary: cd bm bc)
  case Nil
  then show ?case by (simp add: unit_weights_def)
next
  case (Cons n ns)
  have u: "unit_weights (n # ns) = (n, 1) # unit_weights ns" by (simp add: unit_weights_def)
  show ?case
    unfolding u first_phase_candidates.simps second_phase_candidates.simps Cons.IH delta_same
    by simp
qed

lemma first_phase_vertex_unit:
  "first_phase_vertex g E v s = second_phase_vertex E (v, unit_weights (neighbors_of g v)) s"
  by (simp add: first_phase_vertex_def second_phase_vertex_def first_phase_tally_unit
      first_phase_candidates_unit Let_def)

lemma first_phase_sweep_unit:
  "first_phase_sweep g E vs st =
   second_phase_sweep E (map (\<lambda>v. (v, unit_weights (neighbors_of g v))) vs) st"
proof (induction vs arbitrary: st)
  case Nil
  then show ?case by simp
next
  case (Cons v vs)
  obtain m i s where st: "st = (m, i, s)" by (cases st)
  show ?case unfolding st
    by (simp add: first_phase_vertex_unit Cons.IH split: prod.splits bool.splits)
qed

lemma first_phase_sweep_store_graph:
  "first_phase_sweep g E (vertex_stream g) st = second_phase_sweep E (store_graph g) st"
  by (simp add: first_phase_sweep_unit store_graph_def)

text \<open>The tally and the candidate loop in closed form.\<close>

lemma foldl_touch_view [simp]: "index_get d (foldl (index_touch d) m ks) k = index_get d m k"
  by (induction ks arbitrary: m) simp_all

lemma keys_foldl_touch [simp]:
  "fst ` set (foldl (index_touch d) m ks) = fst ` set m \<union> set ks"
  by (induction ks arbitrary: m) auto

lemma second_phase_tally_partition:
  "fst (second_phase_tally p t ns) = foldl (index_touch 0) p (map fst ns)"
  by (induction ns arbitrary: p t) (simp_all add: Let_def)

lemma second_phase_tally_value:
  "snd (second_phase_tally p t ns) c = t c + tally p ns c"
proof (induction ns arbitrary: p t)
  case Nil
  then show ?case by (simp add: tally_def)
next
  case (Cons n ns)
  have "tally (index_touch 0 p (fst n)) ns c = tally p ns c"
    by (simp add: tally_def)
  then show ?case
    by (simp add: Cons.IH Let_def) (simp add: tally_def)
qed

lemma tally_touch [simp]: "tally (index_touch 0 p k) ns = tally p ns"
  by (intro ext) (simp add: tally_def)

lemma tally_foldl_touch [simp]: "tally (foldl (index_touch 0) p ks) ns = tally p ns"
  by (intro ext) (simp add: tally_def)

lemma second_phase_tally_eq:
  "second_phase_tally p (\<lambda>c. 0) ns = (foldl (index_touch 0) p (map fst ns), tally p ns)"
proof -
  have "snd (second_phase_tally p (\<lambda>c. 0) ns) = tally p ns"
    by (intro ext) (simp add: second_phase_tally_value)
  then show ?thesis
    using second_phase_tally_partition [of p "\<lambda>c. 0" ns]
    by (metis prod.collapse)
qed

lemma second_phase_candidates_stats:
  "fst (second_phase_candidates E p vd vc vt t tv cd bm bc ns) =
   foldl (index_touch community_degree_0) cd
     (map (\<lambda>n. index_get 0 p (fst n)) (filter (\<lambda>n. index_get 0 p (fst n) \<noteq> vc) ns))"
proof (induction ns arbitrary: cd bm bc)
  case Nil
  then show ?case by simp
next
  case (Cons n ns)
  show ?case
    by (cases "index_get 0 p (fst n) = vc") (simp_all add: Cons.IH Let_def)
qed

lemma second_phase_candidates_best:
  "snd (snd (second_phase_candidates E p vd vc vt t tv cd bm bc ns)) \<in>
   insert bc ((\<lambda>n. index_get 0 p (fst n)) ` set ns)"
proof (induction ns arbitrary: cd bm bc)
  case Nil
  then show ?case by simp
next
  case (Cons n ns)
  show ?case
  proof (cases "index_get 0 p (fst n) = vc")
    case True
    then show ?thesis using Cons.IH [of cd bm bc] by auto
  next
    case False
    let ?c = "index_get 0 p (fst n)"
    let ?cd1 = "index_touch community_degree_0 cd ?c"
    let ?delta = "second_phase_delta E vd (t ?c) tv
        (tot_degree (index_get community_degree_0 cd ?c)) vt"
    show ?thesis
    proof (cases "dgt ?delta bm")
      case True
      then show ?thesis using False Cons.IH [of ?cd1 ?delta ?c] by (auto simp: Let_def)
    next
      case nb: False
      then show ?thesis using False Cons.IH [of ?cd1 bm bc] by (auto simp: Let_def)
    qed
  qed
qed

lemma second_phase_candidates_none:
  assumes "\<forall>n \<in> set ns. index_get 0 p (fst n) \<noteq> vc \<longrightarrow>
      \<not> dgt (second_phase_delta E vd (t (index_get 0 p (fst n))) tv
               (tot_degree (index_get community_degree_0 cd (index_get 0 p (fst n)))) vt) bm"
  shows "snd (second_phase_candidates E p vd vc vt t tv cd bm bc ns) = (bm, bc)"
  using assms
proof (induction ns arbitrary: cd)
  case Nil
  then show ?case by simp
next
  case (Cons n ns)
  let ?c = "index_get 0 p (fst n)"
  let ?cd1 = "index_touch community_degree_0 cd ?c"
  have rest: "\<forall>n \<in> set ns. index_get 0 p (fst n) \<noteq> vc \<longrightarrow>
      \<not> dgt (second_phase_delta E vd (t (index_get 0 p (fst n))) tv
               (tot_degree (index_get community_degree_0 cd' (index_get 0 p (fst n)))) vt) bm"
    if "index_get community_degree_0 cd' = index_get community_degree_0 cd" for cd'
    using Cons.prems that by simp
  show ?case
  proof (cases "?c = vc")
    case True
    then show ?thesis using Cons.IH [OF rest [of cd]] by simp
  next
    case False
    then have "\<not> dgt (second_phase_delta E vd (t ?c) tv
               (tot_degree (index_get community_degree_0 cd ?c)) vt) bm"
      using Cons.prems by auto
    moreover have "index_get community_degree_0 ?cd1 = index_get community_degree_0 cd"
      by (intro ext) simp
    ultimately show ?thesis using False Cons.IH [OF rest [of ?cd1]] by (simp add: Let_def)
  qed
qed

lemma touched_partition_view [simp]:
  "index_get 0 (touched_partition p v ns) k = index_get 0 p k"
  by (simp add: touched_partition_def del: foldl.simps)

lemma second_phase_vertex_eq:
  "second_phase_vertex E (v, ns) s =
     (let p = t_partition s;
          a = index_get 0 p v;
          p2 = touched_partition p v ns;
          cd2 = touched_stats (t_community_degrees s) p v ns;
          d1 = index_touch 0 (t_degrees s) v;
          b = chosen_community E (v, ns) s
      in if b \<noteq> a
         then (True, \<lparr>t_partition = AList.update v b p2, t_degrees = d1,
                 t_community_degrees =
                   snd (move_vertex v a b (index_get 0 (t_degrees s) v) (tally p ns)
                          (tally p ns a) p2 cd2)\<rparr>)
         else (False, \<lparr>t_partition = p2, t_degrees = d1, t_community_degrees = cd2\<rparr>))"
proof -
  let ?p = "t_partition s"
  let ?a = "index_get 0 ?p v"
  let ?p2 = "touched_partition ?p v ns"
  let ?cd1 = "index_touch community_degree_0 (t_community_degrees s) ?a"
  let ?res = "second_phase_candidates E ?p2 (index_get 0 (t_degrees s) v) ?a
      (tot_degree (index_get community_degree_0 (t_community_degrees s) ?a))
      (tally ?p ns) (tally ?p ns ?a) ?cd1 (Fin 0) ?a ns"
  have t: "second_phase_tally (index_touch 0 ?p v) (\<lambda>c. 0) ns = (?p2, tally ?p ns)"
    by (simp add: second_phase_tally_eq touched_partition_def)
  have c: "fst ?res = touched_stats (t_community_degrees s) ?p v ns"
    by (simp add: second_phase_candidates_stats touched_stats_def)
  have b: "snd (snd ?res) = chosen_community E (v, ns) s"
    by (simp add: chosen_community_def Let_def)
  obtain cd2 bm bc where r: "?res = (cd2, bm, bc)" by (cases ?res)
  from c b r have cd2: "cd2 = touched_stats (t_community_degrees s) ?p v ns"
    and bc: "bc = chosen_community E (v, ns) s" by simp_all
  show ?thesis
    unfolding second_phase_vertex_def
    by (simp add: Let_def t r cd2 [symmetric] bc [symmetric] move_vertex_def)
qed

lemma foldl_touch_present:
  "set ks \<subseteq> fst ` set m \<Longrightarrow> foldl (index_touch d) m ks = m"
  by (induction ks) (simp_all add: touch_present)

lemma chosen_community_optimal:
  assumes "locally_optimal E gr s" and "(v, ns) \<in> set gr"
  shows "chosen_community E (v, ns) s = index_get 0 (t_partition s) v"
proof -
  have v: "index_get community_degree_0
      (index_touch community_degree_0 (t_community_degrees s) (index_get 0 (t_partition s) v)) =
      index_get community_degree_0 (t_community_degrees s)"
    by (intro ext) simp
  have "\<forall>n \<in> set ns. index_get 0 (t_partition s) (fst n) \<noteq> index_get 0 (t_partition s) v \<longrightarrow>
     \<not> dgt (second_phase_delta E (index_get 0 (t_degrees s) v)
              (tally (t_partition s) ns (index_get 0 (t_partition s) (fst n)))
              (tally (t_partition s) ns (index_get 0 (t_partition s) v))
              (tot_degree (index_get community_degree_0 (t_community_degrees s)
                 (index_get 0 (t_partition s) (fst n))))
              (tot_degree (index_get community_degree_0 (t_community_degrees s)
                 (index_get 0 (t_partition s) v))))
            (Fin 0)"
    using assms unfolding locally_optimal_def by fastforce
  then show ?thesis
    unfolding chosen_community_def
    by (simp add: Let_def second_phase_candidates_none v)
qed

lemma second_phase_vertex_optimal:
  assumes "locally_optimal E gr s" and "tables_closed gr s" and "(v, ns) \<in> set gr"
  shows "second_phase_vertex E (v, ns) s = (False, s)"
proof -
  have k: "v \<in> fst ` set (t_degrees s)" "v \<in> fst ` set (t_partition s)"
      "index_get 0 (t_partition s) v \<in> fst ` set (t_community_degrees s)"
      "\<forall>n \<in> set ns. fst n \<in> fst ` set (t_partition s)
          \<and> index_get 0 (t_partition s) (fst n) \<in> fst ` set (t_community_degrees s)"
    using bspec [OF assms(2) [unfolded tables_closed_def] assms(3)] by simp_all
  have p: "touched_partition (t_partition s) v ns = t_partition s"
    unfolding touched_partition_def using k by (intro foldl_touch_present) auto
  have c: "touched_stats (t_community_degrees s) (t_partition s) v ns = t_community_degrees s"
    unfolding touched_stats_def using k by (intro foldl_touch_present) auto
  have d: "index_touch 0 (t_degrees s) v = t_degrees s"
    using k by (simp add: touch_present)
  show ?thesis
    by (simp add: second_phase_vertex_eq chosen_community_optimal [OF assms(1,3)] p c d Let_def)
qed

lemma second_phase_sweep_optimal:
  assumes "locally_optimal E gr s" and "tables_closed gr s" and "set es \<subseteq> set gr"
  shows "second_phase_sweep E es (m, i, s) = (m, i, s)"
  using assms(3)
proof (induction es)
  case Nil
  then show ?case by simp
next
  case (Cons e es)
  obtain v ns where e: "e = (v, ns)" by (cases e)
  have "second_phase_vertex E e s = (False, s)"
    unfolding e using Cons.prems e by (intro second_phase_vertex_optimal [OF assms(1,2)]) simp
  then show ?case using Cons by simp
qed

lemma second_phase_while_optimal:
  assumes "locally_optimal E gr s" and "tables_closed gr s"
  shows "second_phase_while gr E i s = Some (i, s)"
  by (subst second_phase_while.simps)
     (simp add: second_phase_sweep_optimal [OF assms subset_refl])

lemma first_phase_while_optimal:
  assumes "locally_optimal E (store_graph g) s" and "tables_closed (store_graph g) s"
  shows "first_phase_while g E i s = Some (i, s)"
  by (subst first_phase_while.simps)
     (simp add: first_phase_sweep_store_graph second_phase_sweep_optimal [OF assms subset_refl])

text \<open>A property that the body of the sweep preserves holds after the sweep and
  after the loop.\<close>

lemma second_phase_sweep_invariant:
  assumes step: "\<And>e s m s'. e \<in> set gr \<Longrightarrow> Q s \<Longrightarrow> second_phase_vertex E e s = (m, s') \<Longrightarrow> Q s'"
    and "Q s" and "set es \<subseteq> set gr"
    and "second_phase_sweep E es (m, i, s) = (m', i', s')"
  shows "Q s'"
  using assms(2-)
proof (induction es arbitrary: m i s)
  case Nil
  then show ?case by simp
next
  case (Cons e es)
  obtain b s1 where v: "second_phase_vertex E e s = (b, s1)" by (cases "second_phase_vertex E e s")
  have q: "Q s1" using step [OF _ Cons.prems(1) v] Cons.prems(2) by simp
  have sub: "set es \<subseteq> set gr" using Cons.prems(2) by simp
  show ?case
  proof (cases b)
    case True
    then show ?thesis using Cons.IH [OF q sub, of True True] Cons.prems(3) v by simp
  next
    case False
    then show ?thesis using Cons.IH [OF q sub, of m i] Cons.prems(3) v by simp
  qed
qed

lemma second_phase_while_invariant:
  assumes step: "\<And>e s m s'. e \<in> set (gr) \<Longrightarrow> Q s
        \<Longrightarrow> second_phase_vertex E e s = (m, s') \<Longrightarrow> Q s'"
    and res: "second_phase_while gr E i s = Some y" and "Q s"
  shows "Q (snd y)"
proof -
  have "(\<forall>e \<in> set (gr). \<forall>s m s'. Q s \<longrightarrow> second_phase_vertex E e s = (m, s') \<longrightarrow> Q s') \<longrightarrow> Q s \<longrightarrow> Q (snd y)"
  proof (rule second_phase_while.raw_induct [where P = "\<lambda>gr E i s y.
      (\<forall>e \<in> set (gr). \<forall>s m s'. Q s \<longrightarrow> second_phase_vertex E e s = (m, s') \<longrightarrow> Q s') \<longrightarrow> Q s \<longrightarrow> Q (snd y)", OF _ res])
    fix wh gr E i s y
    assume IH: "\<And>gr E i s y. wh gr E i s = Some y \<Longrightarrow>
        (\<forall>e \<in> set (gr). \<forall>s m s'. Q s \<longrightarrow> second_phase_vertex E e s = (m, s') \<longrightarrow> Q s') \<longrightarrow> Q s \<longrightarrow> Q (snd y)"
      and eq: "(case second_phase_sweep E gr (False, i, s) of
          (modified, improvement', s') \<Rightarrow>
            if modified then wh gr E improvement' s' else Some (improvement', s')) = Some y"
    show "(\<forall>e \<in> set (gr). \<forall>s m s'. Q s \<longrightarrow> second_phase_vertex E e s = (m, s') \<longrightarrow> Q s') \<longrightarrow> Q s \<longrightarrow> Q (snd y)"
    proof (intro impI)
      assume st: "(\<forall>e \<in> set (gr). \<forall>s m s'. Q s \<longrightarrow> second_phase_vertex E e s = (m, s') \<longrightarrow> Q s')" and q: "Q s"
      obtain m1 i1 s1 where sw: "second_phase_sweep E (gr) (False, i, s) = (m1, i1, s1)"
        by (cases "second_phase_sweep E (gr) (False, i, s)")
      have q1: "Q s1"
        by (rule second_phase_sweep_invariant [where Q = Q, OF _ q subset_refl sw])
           (use st in blast)
      show "Q (snd y)"
      proof (cases m1)
        case True
        then have "wh gr E i1 s1 = Some y" using eq sw by (simp)
        from IH [OF this] st q1 show ?thesis by simp
      next
        case False
        then show ?thesis using eq sw q1 by (auto)
      qed
    qed
  qed
  then show ?thesis using step assms(3) by blast
qed

lemma first_phase_while_invariant:
  assumes step: "\<And>e s m s'. e \<in> set (store_graph g) \<Longrightarrow> Q s
        \<Longrightarrow> second_phase_vertex E e s = (m, s') \<Longrightarrow> Q s'"
    and res: "first_phase_while g E i s = Some y" and "Q s"
  shows "Q (snd y)"
proof -
  have "(\<forall>e \<in> set (store_graph g). \<forall>s m s'. Q s \<longrightarrow> second_phase_vertex E e s = (m, s') \<longrightarrow> Q s') \<longrightarrow> Q s \<longrightarrow> Q (snd y)"
  proof (rule first_phase_while.raw_induct [where P = "\<lambda>g E i s y.
      (\<forall>e \<in> set (store_graph g). \<forall>s m s'. Q s \<longrightarrow> second_phase_vertex E e s = (m, s') \<longrightarrow> Q s') \<longrightarrow> Q s \<longrightarrow> Q (snd y)", OF _ res])
    fix wh g E i s y
    assume IH: "\<And>g E i s y. wh g E i s = Some y \<Longrightarrow>
        (\<forall>e \<in> set (store_graph g). \<forall>s m s'. Q s \<longrightarrow> second_phase_vertex E e s = (m, s') \<longrightarrow> Q s') \<longrightarrow> Q s \<longrightarrow> Q (snd y)"
      and eq: "(case first_phase_sweep g E (vertex_stream g) (False, i, s) of
          (modified, improvement', s') \<Rightarrow>
            if modified then wh g E improvement' s' else Some (improvement', s')) = Some y"
    show "(\<forall>e \<in> set (store_graph g). \<forall>s m s'. Q s \<longrightarrow> second_phase_vertex E e s = (m, s') \<longrightarrow> Q s') \<longrightarrow> Q s \<longrightarrow> Q (snd y)"
    proof (intro impI)
      assume st: "(\<forall>e \<in> set (store_graph g). \<forall>s m s'. Q s \<longrightarrow> second_phase_vertex E e s = (m, s') \<longrightarrow> Q s')" and q: "Q s"
      obtain m1 i1 s1 where sw: "second_phase_sweep E (store_graph g) (False, i, s) = (m1, i1, s1)"
        by (cases "second_phase_sweep E (store_graph g) (False, i, s)")
      have q1: "Q s1"
        by (rule second_phase_sweep_invariant [where Q = Q, OF _ q subset_refl sw])
           (use st in blast)
      show "Q (snd y)"
      proof (cases m1)
        case True
        then have "wh g E i1 s1 = Some y" using eq sw by (simp add: first_phase_sweep_store_graph)
        from IH [OF this] st q1 show ?thesis by simp
      next
        case False
        then show ?thesis using eq sw q1 by (auto simp: first_phase_sweep_store_graph)
      qed
    qed
  qed
  then show ?thesis using step assms(3) by blast
qed

text \<open>Keys and values of the tables after the body of the sweep.\<close>

lemma set_touch_subset: "set (index_touch d m k) \<subseteq> insert (k, d) (set m)"
  by (auto simp: index_touch_def split: option.splits)

lemma values_touch:
  "c \<in> snd ` set (index_touch d m k) \<Longrightarrow> c \<in> snd ` set m \<or> (c = d \<and> k \<notin> fst ` set m)"
  by (cases "map_of m k") (auto simp: index_touch_def map_of_eq_None_iff image_iff)

lemma values_foldl_touch:
  "c \<in> snd ` set (foldl (index_touch d) m ks) \<Longrightarrow>
   c \<in> snd ` set m \<or> (c = d \<and> (\<exists>k \<in> set ks. k \<notin> fst ` set m))"
proof (induction ks arbitrary: m)
  case Nil
  then show ?case by simp
next
  case (Cons k ks)
  from Cons.IH [of "index_touch d m k"] Cons.prems
  have "c \<in> snd ` set (index_touch d m k)
      \<or> (c = d \<and> (\<exists>k' \<in> set ks. k' \<notin> fst ` set (index_touch d m k)))"
    by simp
  then show ?case using values_touch [of c d m k] by auto
qed

lemma values_update: "snd ` set (AList.update k v m) \<subseteq> insert v (snd ` set m)"
  by (induction m) auto

lemma keys_touched_partition:
  "fst ` set (touched_partition p v ns) = fst ` set p \<union> insert v (fst ` set ns)"
  by (auto simp: touched_partition_def simp del: foldl.simps foldl_Cons)

lemma keys_touched_stats:
  "fst ` set (touched_stats cd p v ns) =
   fst ` set cd \<union> insert (index_get 0 p v) ((\<lambda>n. index_get 0 p (fst n)) ` set ns)"
  by (auto simp: touched_stats_def simp del: foldl.simps foldl_Cons)

lemma keys_index_modify [simp]: "fst ` set (index_modify f m k) = insert k (fst ` set m)"
  by (simp add: index_modify_def AList.dom_update)

lemma keys_move_vertex:
  "fst ` set (snd (move_vertex v a b vd t tv p cd)) = insert a (insert b (fst ` set cd))"
  by (auto simp: move_vertex_def Let_def)

lemma chosen_community_in:
  "chosen_community E (v, ns) s \<in>
   insert (index_get 0 (t_partition s) v) ((\<lambda>n. index_get 0 (t_partition s) (fst n)) ` set ns)"
  using second_phase_candidates_best [of E "touched_partition (t_partition s) v ns" _
      "index_get 0 (t_partition s) v" _ _ _ _ "Fin 0" "index_get 0 (t_partition s) v" ns]
  by (simp add: chosen_community_def Let_def)

lemma second_phase_vertex_keys:
  "fst ` set (t_partition (snd (second_phase_vertex E (v, ns) s))) =
   fst ` set (t_partition s) \<union> insert v (fst ` set ns)"
  by (auto simp: second_phase_vertex_eq Let_def keys_touched_partition AList.dom_update)

lemma second_phase_vertex_values:
  assumes "snd ` set (t_partition s) \<subseteq> fst ` set (t_community_degrees s)"
  shows "snd ` set (t_partition (snd (second_phase_vertex E (v, ns) s))) \<subseteq>
         fst ` set (t_community_degrees (snd (second_phase_vertex E (v, ns) s)))"
proof -
  let ?p = "t_partition s" and ?cd = "t_community_degrees s"
  let ?p2 = "touched_partition ?p v ns" and ?cd2 = "touched_stats ?cd ?p v ns"
  let ?a = "index_get 0 ?p v" and ?b = "chosen_community E (v, ns) s"
  have p2: "snd ` set ?p2 \<subseteq> fst ` set ?cd2"
  proof
    fix c assume "c \<in> snd ` set ?p2"
    then have "c \<in> snd ` set ?p \<or> (c = 0 \<and> (\<exists>k \<in> set (v # map fst ns). k \<notin> fst ` set ?p))"
      unfolding touched_partition_def by (rule values_foldl_touch)
    then show "c \<in> fst ` set ?cd2"
    proof
      assume "c \<in> snd ` set ?p"
      then show ?thesis using assms by (auto simp: keys_touched_stats)
    next
      assume "c = 0 \<and> (\<exists>k \<in> set (v # map fst ns). k \<notin> fst ` set ?p)"
      then obtain k where c: "c = 0" and k: "k \<in> set (v # map fst ns)" "k \<notin> fst ` set ?p"
        by blast
      have "index_get 0 ?p k = 0" using k(2) by (rule index_get_absent)
      then show ?thesis using c k(1) by (auto simp: keys_touched_stats image_iff)
    qed
  qed
  have b: "?b \<in> fst ` set ?cd2"
    using chosen_community_in [of E v ns s] by (auto simp: keys_touched_stats)
  show ?thesis
  proof (cases "?b = ?a")
    case True
    then show ?thesis using p2 by (simp add: second_phase_vertex_eq Let_def)
  next
    case False
    have ins: "insert ?b (snd ` set ?p2) \<subseteq> fst ` set ?cd2" using p2 b by simp
    have up: "snd ` set (AList.update v ?b ?p2) \<subseteq> fst ` set ?cd2"
      by (rule subset_trans [OF values_update ins])
    have "fst ` set ?cd2 \<subseteq> insert ?a (insert ?b (fst ` set ?cd2))" by auto
    with up have "snd ` set (AList.update v ?b ?p2) \<subseteq> insert ?a (insert ?b (fst ` set ?cd2))"
      by (rule subset_trans)
    then show ?thesis using False
      by (simp add: second_phase_vertex_eq Let_def keys_move_vertex)
  qed
qed

lemma second_phase_sweep_keys:
  "second_phase_sweep E es (m, i, s) = (m', i', s') \<Longrightarrow>
   fst ` set (t_partition s') =
     fst ` set (t_partition s) \<union> fst ` set es \<union> (\<Union>e \<in> set es. fst ` set (snd e))"
proof (induction es arbitrary: m i s)
  case Nil
  then show ?case by simp
next
  case (Cons e es)
  obtain v ns where e: "e = (v, ns)" by (cases e)
  obtain b s1 where r: "second_phase_vertex E (v, ns) s = (b, s1)"
    by (cases "second_phase_vertex E (v, ns) s")
  have k: "fst ` set (t_partition s1) = fst ` set (t_partition s) \<union> insert v (fst ` set ns)"
    using second_phase_vertex_keys [of E v ns s] r by simp
  have "\<exists>m1 i1. second_phase_sweep E es (m1, i1, s1) = (m', i', s')"
    using Cons.prems r e by (cases b) auto
  then obtain m1 i1 where "second_phase_sweep E es (m1, i1, s1) = (m', i', s')" by blast
  from Cons.IH [OF this] show ?case unfolding k e by auto
qed

lemma first_phase_while_keys:
  assumes "first_phase_while g E i s = Some y"
  shows "fst ` set (store_graph g) \<union> (\<Union>e \<in> set (store_graph g). fst ` set (snd e))
         \<subseteq> fst ` set (t_partition (snd y))"
proof (rule first_phase_while.raw_induct [where P = "\<lambda>g E i s y.
      fst ` set (store_graph g) \<union> (\<Union>e \<in> set (store_graph g). fst ` set (snd e))
         \<subseteq> fst ` set (t_partition (snd y))", OF _ assms])
  fix wh g E i s y
  assume IH: "\<And>g E i s y. wh g E i s = Some y \<Longrightarrow>
      fst ` set (store_graph g) \<union> (\<Union>e \<in> set (store_graph g). fst ` set (snd e))
         \<subseteq> fst ` set (t_partition (snd y))"
    and eq: "(case first_phase_sweep g E (vertex_stream g) (False, i, s) of
          (modified, improvement', s') \<Rightarrow>
            if modified then wh g E improvement' s' else Some (improvement', s')) = Some y"
  obtain m1 i1 s1 where sw: "second_phase_sweep E (store_graph g) (False, i, s) = (m1, i1, s1)"
    by (cases "second_phase_sweep E (store_graph g) (False, i, s)")
  show "fst ` set (store_graph g) \<union> (\<Union>e \<in> set (store_graph g). fst ` set (snd e))
         \<subseteq> fst ` set (t_partition (snd y))"
  proof (cases m1)
    case True
    then have "wh g E i1 s1 = Some y" using eq sw by (simp add: first_phase_sweep_store_graph)
    then show ?thesis by (rule IH)
  next
    case False
    then have "y = (i1, s1)" using eq sw by (simp add: first_phase_sweep_store_graph)
    then show ?thesis using second_phase_sweep_keys [OF sw] by auto
  qed
qed

lemma store_graph_keys:
  "fst ` set (store_graph g) \<union> (\<Union>e \<in> set (store_graph g). fst ` set (snd e)) =
   set (vertex_stream g) \<union> (\<Union>v \<in> set (vertex_stream g). set (neighbors_of g v))"
  by (auto simp: store_graph_def unit_weights_def image_iff)

text \<open>The evaluator and the store inducer do not throw when the keys they read are present.\<close>

lemma modularity_loop_total:
  "snd ` set p \<subseteq> fst ` set cd \<Longrightarrow> \<exists>q. modularity_loop cd ds m n r p = Inr q"
proof (induction p arbitrary: r)
  case Nil
  then show ?case by simp
next
  case (Cons e p)
  then obtain d where "map_of cd (snd e) = Some d"
    by (metis image_eqI insert_subset list.simps(15) image_insert map_of_eq_None_iff not_Some_eq)
  then show ?case using Cons by simp
qed

lemma modularity_total:
  "snd ` set p \<subseteq> fst ` set cd \<Longrightarrow> \<exists>q. modularity p cd ds = Inr q"
  by (simp add: modularity_def Let_def modularity_loop_total)

lemma induce_store_neighbors_total:
  "set ns \<subseteq> fst ` set p \<Longrightarrow> \<exists>ig'. induce_store_neighbors p vc ig ns = Inr ig'"
proof (induction ns arbitrary: ig)
  case Nil
  then show ?case by simp
next
  case (Cons n ns)
  then obtain c where "map_of p n = Some c"
    by (metis insert_subset list.simps(15) map_of_eq_None_iff not_Some_eq)
  moreover have "set ns \<subseteq> fst ` set p" using Cons.prems by simp
  ultimately show ?case using Cons.IH by auto
qed

lemma induce_store_vertices_total:
  "set vs \<union> (\<Union>v \<in> set vs. set (neighbors_of g v)) \<subseteq> fst ` set p \<Longrightarrow>
   \<exists>ig'. induce_store_vertices g p ig vs = Inr ig'"
proof (induction vs arbitrary: ig)
  case Nil
  then show ?case by simp
next
  case (Cons v vs)
  then obtain c where c: "map_of p v = Some c"
    by (metis Un_subset_iff insert_subset list.simps(15) map_of_eq_None_iff not_Some_eq)
  have "set (neighbors_of g v) \<subseteq> fst ` set p" using Cons.prems by auto
  then obtain ig1 where n: "induce_store_neighbors p c ig (neighbors_of g v) = Inr ig1"
    using induce_store_neighbors_total by blast
  have "set vs \<union> (\<Union>v \<in> set vs. set (neighbors_of g v)) \<subseteq> fst ` set p"
    using Cons.prems by auto
  from Cons.IH [OF this, of ig1] show ?case using c n by simp
qed

lemma induce_community_graph_store_total:
  "set (vertex_stream g) \<union> (\<Union>v \<in> set (vertex_stream g). set (neighbors_of g v))
     \<subseteq> fst ` set p \<Longrightarrow>
   \<exists>ig. induce_community_graph_store g p = Inr ig"
  unfolding induce_community_graph_store_def by (rule induce_store_vertices_total)

text \<open>The tables after the initialisation.\<close>

lemma initialize_batch_tables:
  "fst ` set (t_partition (initialize_batch g vs s)) = fst ` set (t_partition s) \<union> set vs
   \<and> fst ` set (t_degrees (initialize_batch g vs s)) = fst ` set (t_degrees s) \<union> set vs
   \<and> fst ` set (t_community_degrees (initialize_batch g vs s)) =
       fst ` set (t_community_degrees s) \<union> set vs
   \<and> snd ` set (t_partition (initialize_batch g vs s)) \<subseteq> snd ` set (t_partition s) \<union> set vs
   \<and> (\<forall>k. map_of (t_partition (initialize_batch g vs s)) k =
         (if k \<in> set vs then Some k else map_of (t_partition s) k))"
proof (induction vs arbitrary: s)
  case Nil
  then show ?case by simp
next
  case (Cons v vs)
  let ?s1 = "\<lparr>t_partition = AList.update v v (t_partition s),
        t_degrees = AList.update v (degree_of g v) (t_degrees s),
        t_community_degrees =
          AList.update v \<lparr>in_degree = 0, tot_degree = degree_of g v\<rparr>
            (t_community_degrees s)\<rparr>"
  have step: "initialize_batch g (v # vs) s = initialize_batch g vs ?s1" by simp
  have vals: "snd ` set (t_partition ?s1) \<subseteq> insert v (snd ` set (t_partition s))"
    using values_update [of v v "t_partition s"] by simp
  note ih = Cons.IH [of ?s1]
  have 1: "fst ` set (t_partition (initialize_batch g (v # vs) s)) =
      fst ` set (t_partition s) \<union> set (v # vs)"
    unfolding step using ih by (simp add: AList.dom_update)
  have 2: "fst ` set (t_degrees (initialize_batch g (v # vs) s)) =
      fst ` set (t_degrees s) \<union> set (v # vs)"
    unfolding step using ih by (simp add: AList.dom_update)
  have 3: "fst ` set (t_community_degrees (initialize_batch g (v # vs) s)) =
      fst ` set (t_community_degrees s) \<union> set (v # vs)"
    unfolding step using ih by (simp add: AList.dom_update)
  have "snd ` set (t_partition (initialize_batch g (v # vs) s)) \<subseteq>
      snd ` set (t_partition ?s1) \<union> set vs"
    unfolding step using ih by blast
  then have 4: "snd ` set (t_partition (initialize_batch g (v # vs) s)) \<subseteq>
      snd ` set (t_partition s) \<union> set (v # vs)"
    using vals by auto
  have 5: "\<forall>k. map_of (t_partition (initialize_batch g (v # vs) s)) k =
         (if k \<in> set (v # vs) then Some k else map_of (t_partition s) k)"
    unfolding step using ih by (simp add: AList.update_conv')
  show ?case using 1 2 3 4 5 by blast
qed

lemma initialize_batches_tables:
  "fst ` set (t_partition (initialize_batches g bs s)) = fst ` set (t_partition s) \<union> set (concat bs)
   \<and> fst ` set (t_degrees (initialize_batches g bs s)) = fst ` set (t_degrees s) \<union> set (concat bs)
   \<and> fst ` set (t_community_degrees (initialize_batches g bs s)) =
       fst ` set (t_community_degrees s) \<union> set (concat bs)
   \<and> snd ` set (t_partition (initialize_batches g bs s)) \<subseteq>
       snd ` set (t_partition s) \<union> set (concat bs)
   \<and> (\<forall>k. map_of (t_partition (initialize_batches g bs s)) k =
         (if k \<in> set (concat bs) then Some k else map_of (t_partition s) k))"
proof (induction bs arbitrary: s)
  case Nil
  then show ?case by simp
next
  case (Cons b bs)
  note b = initialize_batch_tables [of g b s]
  note ih = Cons.IH [of "initialize_batch g b s"]
  have 1: "fst ` set (t_partition (initialize_batches g (b # bs) s)) =
      fst ` set (t_partition s) \<union> set (concat (b # bs))"
    using ih b by auto
  have 2: "fst ` set (t_degrees (initialize_batches g (b # bs) s)) =
      fst ` set (t_degrees s) \<union> set (concat (b # bs))"
    using ih b by auto
  have 3: "fst ` set (t_community_degrees (initialize_batches g (b # bs) s)) =
      fst ` set (t_community_degrees s) \<union> set (concat (b # bs))"
    using ih b by auto
  have "snd ` set (t_partition (initialize_batches g (b # bs) s)) \<subseteq>
      snd ` set (t_partition (initialize_batch g b s)) \<union> set (concat bs)"
    using ih by simp
  moreover have "snd ` set (t_partition (initialize_batch g b s)) \<subseteq>
      snd ` set (t_partition s) \<union> set b"
    using b by blast
  ultimately have 4: "snd ` set (t_partition (initialize_batches g (b # bs) s)) \<subseteq>
      snd ` set (t_partition s) \<union> set (concat (b # bs))"
    by auto
  have 5: "\<forall>k. map_of (t_partition (initialize_batches g (b # bs) s)) k =
         (if k \<in> set (concat (b # bs)) then Some k else map_of (t_partition s) k)"
    using ih b by simp
  show ?case using 1 2 3 4 5 by blast
qed

lemma initialize_tables:
  "fst ` set (t_partition (initialize g)) = set (vertex_stream g)"
  "fst ` set (t_degrees (initialize g)) = set (vertex_stream g)"
  "fst ` set (t_community_degrees (initialize g)) = set (vertex_stream g)"
  "snd ` set (t_partition (initialize g)) \<subseteq> set (vertex_stream g)"
  "map_of (t_partition (initialize g)) k = (if k \<in> set (vertex_stream g) then Some k else None)"
  using initialize_batches_tables [of g "keys_batches g"
      "\<lparr>t_partition = [], t_degrees = [], t_community_degrees = []\<rparr>"]
  by (simp_all add: initialize_def vertex_stream_def)


lemma first_phase_values:
  assumes "first_phase_while g E i s = Some y"
    and "snd ` set (t_partition s) \<subseteq> fst ` set (t_community_degrees s)"
  shows "snd ` set (t_partition (snd y)) \<subseteq> fst ` set (t_community_degrees (snd y))"
proof (rule first_phase_while_invariant [where
      Q = "\<lambda>s. snd ` set (t_partition s) \<subseteq> fst ` set (t_community_degrees s)", OF _ assms])
  fix e s m s'
  assume q: "snd ` set (t_partition s) \<subseteq> fst ` set (t_community_degrees s)"
    and r: "second_phase_vertex E e s = (m, s')"
  obtain v ns where e: "e = (v, ns)" by (cases e)
  from second_phase_vertex_values [OF q, of E v ns] r e
  show "snd ` set (t_partition s') \<subseteq> fst ` set (t_community_degrees s')" by simp
qed

lemma best_partition_single_level:
  assumes "first_phase g (initialize g) (number_of_edges g) = Some (False, s)"
  shows "best_partition g thr = Some (Inr (t_partition s))"
proof -
  from assms have w: "first_phase_while g (number_of_edges g) False (initialize g) = Some (False, s)"
    by (simp add: first_phase_def)
  have "snd ` set (t_partition (initialize g)) \<subseteq> fst ` set (t_community_degrees (initialize g))"
    by (simp add: initialize_tables)
  from first_phase_values [OF w this]
  obtain q where q: "modularity (t_partition s) (t_community_degrees s)
      (real (unat (number_of_edges g))) = Inr q"
    using modularity_total by fastforce
  have "set (vertex_stream g) \<union> (\<Union>v \<in> set (vertex_stream g). set (neighbors_of g v))
      \<subseteq> fst ` set (t_partition s)"
    using first_phase_while_keys [OF w] by (simp only: store_graph_keys snd_conv)
  then obtain ig where ig: "induce_community_graph_store g (t_partition s) = Inr ig"
    using induce_community_graph_store_total by blast
  have "best_partition_while thr False ig q [t_partition s] = Some (Inr [t_partition s])"
    by (subst best_partition_while.simps) simp
  then show ?thesis
    using assms q ig by (simp add: best_partition_def)
qed

lemma best_partition_while_stack:
  assumes "best_partition_while thr i gr m ps = Some (Inr ps')"
  shows "\<exists>front. ps' = front @ ps"
proof -
  have "\<forall>ps''. (Inr ps' :: error + partition_t list) = Inr ps'' \<longrightarrow> (\<exists>front. ps'' = front @ ps)"
  proof (rule best_partition_while.raw_induct [where P = "\<lambda>thr i gr m (ps :: partition_t list) (y :: error + partition_t list).
      \<forall>ps'. y = Inr ps' \<longrightarrow> (\<exists>front. ps' = front @ ps)", OF _ assms])
    fix wh thr i gr m ps y
    assume IH: "\<And>thr i gr m ps y. wh thr i gr m ps = Some y \<Longrightarrow>
        \<forall>ps'. y = Inr ps' \<longrightarrow> (\<exists>front. ps' = front @ ps)"
      and eq: "(if \<not> i then Some (Inr ps)
        else case level_tables gr
                (\<lparr>t_partition = [], t_degrees = [], t_community_degrees = []\<rparr>, 0, 0) of
           (s, degree_sum, count_edges) \<Rightarrow>
             (case second_phase gr s (count_edges div 2) of
                None \<Rightarrow> None
              | Some (improvement', s') \<Rightarrow>
                  (case modularity (t_partition s') (t_community_degrees s')
                          (real_of_int (degree_sum sdiv 2)) of
                     Inl e \<Rightarrow> Some (Inl e)
                   | Inr new_mod \<Rightarrow>
                       if dle (dsub new_mod m) (Fin thr)
                       then Some (Inr ps)
                       else
                         (case induce_community_graph gr (t_partition s') of
                            Inl e \<Rightarrow> Some (Inl e)
                          | Inr graph'' \<Rightarrow>
                              wh thr improvement' graph''
                                new_mod (t_partition s' # ps))))) = Some y"
    show "\<forall>ps'. y = Inr ps' \<longrightarrow> (\<exists>front. ps' = front @ ps)"
    proof (intro allI impI)
      fix ps' assume y: "y = Inr ps'"
      show "\<exists>front. ps' = front @ ps"
      proof (cases i)
        case False
        then show ?thesis using eq y by simp
      next
        case True
        obtain s ds ce where lt: "level_tables gr
            (\<lparr>t_partition = [], t_degrees = [], t_community_degrees = []\<rparr>, 0, 0) = (s, ds, ce)"
          by (cases "level_tables gr
            (\<lparr>t_partition = [], t_degrees = [], t_community_degrees = []\<rparr>, 0, 0)")
        from eq True lt obtain i' s' where sp: "second_phase gr s (ce div 2) = Some (i', s')"
          by (cases "second_phase gr s (ce div 2)") auto
        from eq True lt sp y obtain nm where nm: "modularity (t_partition s')
            (t_community_degrees s') (real_of_int (ds sdiv 2)) = Inr nm"
          by (cases "modularity (t_partition s') (t_community_degrees s')
            (real_of_int (ds sdiv 2))") auto
        show ?thesis
        proof (cases "dle (dsub nm m) (Fin thr)")
          case True
          then show ?thesis using eq \<open>i\<close> lt sp nm y by simp
        next
          case False
          from eq \<open>i\<close> lt sp nm y False obtain g2 where
            ig: "induce_community_graph gr (t_partition s') = Inr g2"
            by (cases "induce_community_graph gr (t_partition s')") auto
          have "wh thr i' g2 nm (t_partition s' # ps) = Some y"
            using eq \<open>i\<close> lt sp nm False ig by simp
          from IH [OF this] y obtain front where "ps' = front @ t_partition s' # ps" by blast
          then have "ps' = (front @ [t_partition s']) @ ps" by simp
          then show ?thesis by blast
        qed
      qed
    qed
  qed
  then show ?thesis by simp
qed

lemma best_partition_keys_closed:
  assumes closed: "\<forall>v \<in> set (vertex_stream g). set (neighbors_of g v) \<subseteq> set (vertex_stream g)"
    and res: "best_partition g thr = Some (Inr r)"
  shows "fst ` set r = set (vertex_stream g)"
proof -
  obtain i s where fp: "first_phase g (initialize g) (number_of_edges g) = Some (i, s)"
    using res by (cases "first_phase g (initialize g) (number_of_edges g)")
      (auto simp: best_partition_def)
  obtain q where q: "modularity (t_partition s) (t_community_degrees s)
      (real (unat (number_of_edges g))) = Inr q"
    using res fp by (cases "modularity (t_partition s) (t_community_degrees s)
      (real (unat (number_of_edges g)))") (auto simp: best_partition_def)
  obtain ig where ig: "induce_community_graph_store g (t_partition s) = Inr ig"
    using res fp q by (cases "induce_community_graph_store g (t_partition s)")
      (auto simp: best_partition_def)
  obtain ps where ps: "best_partition_while thr i ig q [t_partition s] = Some (Inr ps)"
    and r: "r = flatten ps"
    using res fp q ig by (auto simp: best_partition_def split: option.splits sum.splits)
  from best_partition_while_stack [OF ps] obtain front where f: "ps = front @ [t_partition s]"
    by blast
  have w: "first_phase_while g (number_of_edges g) False (initialize g) = Some (i, s)"
    using fp by (simp add: first_phase_def)
  have "fst ` set (t_partition (snd (i, s))) = set (vertex_stream g)"
  proof (rule first_phase_while_invariant [where
        Q = "\<lambda>s. fst ` set (t_partition s) = set (vertex_stream g)", OF _ w])
    show "fst ` set (t_partition (initialize g)) = set (vertex_stream g)"
      by (simp add: initialize_tables)
  next
    fix e s m s'
    assume e: "e \<in> set (store_graph g)"
      and k: "fst ` set (t_partition s) = set (vertex_stream g)"
      and st: "second_phase_vertex (number_of_edges g) e s = (m, s')"
    obtain v where v: "v \<in> set (vertex_stream g)" "e = (v, unit_weights (neighbors_of g v))"
      using e by (auto simp: store_graph_def)
    have "fst ` set (unit_weights (neighbors_of g v)) = set (neighbors_of g v)"
      by (auto simp: unit_weights_def image_iff)
    then have "fst ` set (unit_weights (neighbors_of g v)) \<subseteq> set (vertex_stream g)"
      using closed v(1) by auto
    then show "fst ` set (t_partition s') = set (vertex_stream g)"
      using second_phase_vertex_keys [of "number_of_edges g" v "unit_weights (neighbors_of g v)" s]
        st v k by auto
  qed
  then show ?thesis unfolding r f by (simp add: keys_flatten_front)
qed

text \<open>The coarsened-graph inducer does not throw when the keys it reads are present, and
  the driver does not throw at all: every key that the evaluator and the inducers look up
  with \<^verbatim>\<open>.at()\<close> has been inserted before, by the initialisation or by a sweep.\<close>

lemma induce_graph_neighbors_total:
  "fst ` set ns \<subseteq> fst ` set p \<Longrightarrow> \<exists>ig'. induce_graph_neighbors p vc ig ns = Inr ig'"
proof (induction ns arbitrary: ig)
  case Nil
  then show ?case by simp
next
  case (Cons n ns)
  then have "fst n \<in> fst ` set p" by simp
  then have "map_of p (fst n) \<noteq> None" by (simp add: map_of_eq_None_iff)
  then obtain c where "map_of p (fst n) = Some c" by blast
  moreover have "fst ` set ns \<subseteq> fst ` set p" using Cons.prems by simp
  ultimately show ?case using Cons.IH by auto
qed

lemma induce_graph_vertices_total:
  "fst ` set vs \<union> (\<Union>v \<in> set vs. fst ` set (snd v)) \<subseteq> fst ` set p \<Longrightarrow>
   \<exists>ig'. induce_graph_vertices p ig vs = Inr ig'"
proof (induction vs arbitrary: ig)
  case Nil
  then show ?case by simp
next
  case (Cons v vs)
  then have "fst v \<in> fst ` set p" by simp
  then have "map_of p (fst v) \<noteq> None" by (simp add: map_of_eq_None_iff)
  then obtain c where c: "map_of p (fst v) = Some c" by blast
  have "fst ` set (snd v) \<subseteq> fst ` set p" using Cons.prems by auto
  then obtain ig1 where n: "induce_graph_neighbors p c ig (snd v) = Inr ig1"
    using induce_graph_neighbors_total by blast
  have "fst ` set vs \<union> (\<Union>v \<in> set vs. fst ` set (snd v)) \<subseteq> fst ` set p"
    using Cons.prems by auto
  from Cons.IH [OF this, of ig1] show ?case using c n by simp
qed

lemma induce_community_graph_total:
  "fst ` set gr \<union> (\<Union>e \<in> set gr. fst ` set (snd e)) \<subseteq> fst ` set p \<Longrightarrow>
   \<exists>ig. induce_community_graph gr p = Inr ig"
  unfolding induce_community_graph_def by (rule induce_graph_vertices_total)

lemma second_phase_while_keys:
  assumes "second_phase_while gr E i s = Some y"
  shows "fst ` set gr \<union> (\<Union>e \<in> set gr. fst ` set (snd e)) \<subseteq> fst ` set (t_partition (snd y))"
proof (rule second_phase_while.raw_induct [where P = "\<lambda>gr E i s y.
      fst ` set gr \<union> (\<Union>e \<in> set gr. fst ` set (snd e)) \<subseteq> fst ` set (t_partition (snd y))",
      OF _ assms])
  fix wh gr E i s y
  assume IH: "\<And>gr E i s y. wh gr E i s = Some y \<Longrightarrow>
      fst ` set gr \<union> (\<Union>e \<in> set gr. fst ` set (snd e)) \<subseteq> fst ` set (t_partition (snd y))"
    and eq: "(case second_phase_sweep E gr (False, i, s) of
          (modified, improvement', s') \<Rightarrow>
            if modified then wh gr E improvement' s' else Some (improvement', s')) = Some y"
  obtain m1 i1 s1 where sw: "second_phase_sweep E gr (False, i, s) = (m1, i1, s1)"
    by (cases "second_phase_sweep E gr (False, i, s)")
  show "fst ` set gr \<union> (\<Union>e \<in> set gr. fst ` set (snd e)) \<subseteq> fst ` set (t_partition (snd y))"
  proof (cases m1)
    case True
    then have "wh gr E i1 s1 = Some y" using eq sw by simp
    then show ?thesis by (rule IH)
  next
    case False
    then have "y = (i1, s1)" using eq sw by simp
    then show ?thesis using second_phase_sweep_keys [OF sw] by auto
  qed
qed

lemma second_phase_values:
  assumes "second_phase_while gr E i s = Some y"
    and "snd ` set (t_partition s) \<subseteq> fst ` set (t_community_degrees s)"
  shows "snd ` set (t_partition (snd y)) \<subseteq> fst ` set (t_community_degrees (snd y))"
proof (rule second_phase_while_invariant [where
      Q = "\<lambda>s. snd ` set (t_partition s) \<subseteq> fst ` set (t_community_degrees s)", OF _ assms])
  fix e s m s'
  assume q: "snd ` set (t_partition s) \<subseteq> fst ` set (t_community_degrees s)"
    and r: "second_phase_vertex E e s = (m, s')"
  obtain v ns where e: "e = (v, ns)" by (cases e)
  from second_phase_vertex_values [OF q, of E v ns] r e
  show "snd ` set (t_partition s') \<subseteq> fst ` set (t_community_degrees s')" by simp
qed

lemma keys_update: "fst ` set (AList.update k v m) = insert k (fst ` set m)"
  by (simp add: dom_update)

lemma level_tables_values:
  assumes "level_tables gr (s, ds, ce) = (s', ds', ce')"
    and "snd ` set (t_partition s) \<subseteq> fst ` set (t_community_degrees s)"
  shows "snd ` set (t_partition s') \<subseteq> fst ` set (t_community_degrees s')"
  using assms
proof (induction gr arbitrary: s ds ce)
  case Nil
  then show ?case by simp
next
  case (Cons e gr)
  obtain d c where ld: "level_degree 0 ce (snd e) = (d, c)" by (cases "level_degree 0 ce (snd e)")
  let ?s1 = "\<lparr>t_partition = AList.update (fst e) (fst e) (t_partition s),
              t_degrees = AList.update (fst e) d (t_degrees s),
              t_community_degrees =
                AList.update (fst e) \<lparr>in_degree = 0, tot_degree = d\<rparr> (t_community_degrees s)\<rparr>"
  have r: "level_tables gr (?s1, trunc (real_of_int ds + d), c) = (s', ds', ce')"
    using Cons.prems(1) ld by simp
  have "snd ` set (t_partition ?s1) \<subseteq> fst ` set (t_community_degrees ?s1)"
    using values_update [of "fst e" "fst e" "t_partition s"] Cons.prems(2)
    by (auto simp: keys_update)
  from Cons.IH [OF r this] show ?case .
qed

lemma best_partition_while_total:
  assumes "best_partition_while thr i gr m ps = Some y"
  shows "\<exists>ps'. y = Inr ps'"
proof (rule best_partition_while.raw_induct [where P = "\<lambda>thr i gr m (ps :: partition_t list)
      (y :: error + partition_t list). \<exists>ps'. y = Inr ps'", OF _ assms])
  fix wh thr i gr m ps y
  assume IH: "\<And>thr i gr m ps y. wh thr i gr m ps = Some y \<Longrightarrow> \<exists>ps'. y = Inr ps'"
    and eq: "(if \<not> i then Some (Inr ps)
        else case level_tables gr
                (\<lparr>t_partition = [], t_degrees = [], t_community_degrees = []\<rparr>, 0, 0) of
           (s, degree_sum, count_edges) \<Rightarrow>
             (case second_phase gr s (count_edges div 2) of
                None \<Rightarrow> None
              | Some (improvement', s') \<Rightarrow>
                  (case modularity (t_partition s') (t_community_degrees s')
                          (real_of_int (degree_sum sdiv 2)) of
                     Inl e \<Rightarrow> Some (Inl e)
                   | Inr new_mod \<Rightarrow>
                       if dle (dsub new_mod m) (Fin thr)
                       then Some (Inr ps)
                       else
                         (case induce_community_graph gr (t_partition s') of
                            Inl e \<Rightarrow> Some (Inl e)
                          | Inr graph'' \<Rightarrow>
                              wh thr improvement' graph''
                                new_mod (t_partition s' # ps))))) = Some y"
  show "\<exists>ps'. y = Inr ps'"
  proof (cases i)
    case False
    then show ?thesis using eq by auto
  next
    case True
    obtain s ds ce where lt: "level_tables gr
        (\<lparr>t_partition = [], t_degrees = [], t_community_degrees = []\<rparr>, 0, 0) = (s, ds, ce)"
      by (cases "level_tables gr
        (\<lparr>t_partition = [], t_degrees = [], t_community_degrees = []\<rparr>, 0, 0)")
    have v0: "snd ` set (t_partition s) \<subseteq> fst ` set (t_community_degrees s)"
      by (rule level_tables_values [OF lt]) simp
    from eq True lt obtain i' s' where sp: "second_phase gr s (ce div 2) = Some (i', s')"
      by (cases "second_phase gr s (ce div 2)") auto
    then have w: "second_phase_while gr (ce div 2) False s = Some (i', s')"
      by (simp add: second_phase_def)
    have "snd ` set (t_partition s') \<subseteq> fst ` set (t_community_degrees s')"
      using second_phase_values [OF w v0] by simp
    then obtain nm where nm: "modularity (t_partition s') (t_community_degrees s')
        (real_of_int (ds sdiv 2)) = Inr nm"
      using modularity_total by blast
    have "fst ` set gr \<union> (\<Union>e \<in> set gr. fst ` set (snd e)) \<subseteq> fst ` set (t_partition s')"
      using second_phase_while_keys [OF w] by simp
    then obtain g2 where ig: "induce_community_graph gr (t_partition s') = Inr g2"
      using induce_community_graph_total by blast
    show ?thesis
    proof (cases "dle (dsub nm m) (Fin thr)")
      case True
      then show ?thesis using eq \<open>i\<close> lt sp nm by auto
    next
      case False
      then have "wh thr i' g2 nm (t_partition s' # ps) = Some y"
        using eq \<open>i\<close> lt sp nm ig by simp
      then show ?thesis by (rule IH)
    qed
  qed
qed

lemma best_partition_total:
  assumes "best_partition g thr = Some y"
  shows "\<exists>r. y = Inr r"
proof -
  obtain i s where fp: "first_phase g (initialize g) (number_of_edges g) = Some (i, s)"
    using assms by (cases "first_phase g (initialize g) (number_of_edges g)")
      (auto simp: best_partition_def)
  then have w: "first_phase_while g (number_of_edges g) False (initialize g) = Some (i, s)"
    by (simp add: first_phase_def)
  have "snd ` set (t_partition (initialize g)) \<subseteq> fst ` set (t_community_degrees (initialize g))"
    by (simp add: initialize_tables)
  from first_phase_values [OF w this]
  obtain q where q: "modularity (t_partition s) (t_community_degrees s)
      (real (unat (number_of_edges g))) = Inr q"
    using modularity_total by fastforce
  have "set (vertex_stream g) \<union> (\<Union>v \<in> set (vertex_stream g). set (neighbors_of g v))
      \<subseteq> fst ` set (t_partition s)"
    using first_phase_while_keys [OF w] by (simp only: store_graph_keys snd_conv)
  then obtain ig where ig: "induce_community_graph_store g (t_partition s) = Inr ig"
    using induce_community_graph_store_total by blast
  show ?thesis
  proof (cases "best_partition_while thr i ig q [t_partition s]")
    case None
    then show ?thesis using assms fp q ig by (simp add: best_partition_def)
  next
    case (Some z)
    from best_partition_while_total [OF Some] obtain ps where "z = Inr ps" by blast
    then show ?thesis using assms fp q ig Some by (auto simp: best_partition_def)
  qed
qed

lemma edgeless_first_phase:
  assumes "\<forall>v \<in> set (vertex_stream g). neighbors_of g v = []"
  shows "first_phase g (initialize g) E = Some (False, initialize g)"
proof -
  have nb: "snd e = []" if "e \<in> set (store_graph g)" for e
    using that assms by (auto simp: store_graph_def unit_weights_def)
  have lo: "locally_optimal E (store_graph g) (initialize g)"
    unfolding locally_optimal_def using nb by simp
  have v: "fst e \<in> set (vertex_stream g)" if "e \<in> set (store_graph g)" for e
    using that by (auto simp: store_graph_def)
  have "index_get 0 (t_partition (initialize g)) (fst e) = fst e" if "e \<in> set (store_graph g)" for e
    using v [OF that] by (simp add: index_get_def initialize_tables)
  then have tc: "tables_closed (store_graph g) (initialize g)"
    unfolding tables_closed_def using nb v by (simp add: initialize_tables)
  show ?thesis
    unfolding first_phase_def by (rule first_phase_while_optimal [OF lo tc])
qed

section \<open>Properties of the Local-Move Engine and of the driver: the claims\<close>

text \<open>
  C7 (as stated, refuted). Two runs of the engine on a locally optimal partition that
  do not leave it as it was.

  In the first the only neighbour of vertex 1 has no entry in the Partition. Reading its
  community (line 118, \<^verbatim>\<open>partition[neighbor]\<close>; line 58 at level 0) inserts the entry with
  community 0, which is the community of vertex 1: there is no neighbouring community, so
  the tables are locally optimal, and no vertex moves; but the Partition that the engine
  leaves has one more key. Both modes.

  In the second every key is present. Vertex 1, of degree 6 in community 1 of total
  degree 6, has an edge of weight 3 into community 2, of total degree 5, and the level
  has 5 edges. The formula of the specification gives the delta 0, which is not strictly
  positive; the engine computes \<open>3 * (1/5) - (6/50) * 5\<close> in binary64, which is \<open>2^-53\<close>, and
  moves the vertex.
\<close>

theorem local_move_not_idempotent:
  "locally_optimal 1 [(1, [(2, 1)])]
     \<lparr>t_partition = [(1, 0)], t_degrees = [(1, 1)],
      t_community_degrees = [(0, \<lparr>in_degree = 0, tot_degree = 1\<rparr>)]\<rparr>
   \<and> second_phase [(1, [(2, 1)])]
     \<lparr>t_partition = [(1, 0)], t_degrees = [(1, 1)],
      t_community_degrees = [(0, \<lparr>in_degree = 0, tot_degree = 1\<rparr>)]\<rparr> 1 =
     Some (False,
       \<lparr>t_partition = [(1, 0), (2, 0)], t_degrees = [(1, 1)],
        t_community_degrees = [(0, \<lparr>in_degree = 0, tot_degree = 1\<rparr>)]\<rparr>)
   \<and> first_phase
     \<lparr>keys_batches = [[1]], neighbors_of = (\<lambda>v. if v = 1 then [2] else []),
      degree_of = (\<lambda>v. 1), number_of_edges = 1\<rparr>
     \<lparr>t_partition = [(1, 0)], t_degrees = [(1, 1)],
      t_community_degrees = [(0, \<lparr>in_degree = 0, tot_degree = 1\<rparr>)]\<rparr> 1 =
     Some (False,
       \<lparr>t_partition = [(1, 0), (2, 0)], t_degrees = [(1, 1)],
        t_community_degrees = [(0, \<lparr>in_degree = 0, tot_degree = 1\<rparr>)]\<rparr>)
   \<and> tables_closed [(1, [(2, 3)])]
     \<lparr>t_partition = [(1, 1), (2, 2)], t_degrees = [(1, 6), (2, 5)],
      t_community_degrees = [(1, \<lparr>in_degree = 0, tot_degree = 6\<rparr>),
                             (2, \<lparr>in_degree = 0, tot_degree = 5\<rparr>)]\<rparr>
   \<and> delta_formula 5 6 3 0 5 6 = 0
   \<and> second_phase_delta 5 6 3 0 5 6 = Fin (1 / 2 ^ 53)
   \<and> second_phase [(1, [(2, 3)])]
     \<lparr>t_partition = [(1, 1), (2, 2)], t_degrees = [(1, 6), (2, 5)],
      t_community_degrees = [(1, \<lparr>in_degree = 0, tot_degree = 6\<rparr>),
                             (2, \<lparr>in_degree = 0, tot_degree = 5\<rparr>)]\<rparr> 5 =
     Some (True,
       \<lparr>t_partition = [(1, 2), (2, 2)], t_degrees = [(1, 6), (2, 5)],
        t_community_degrees = [(1, \<lparr>in_degree = 0, tot_degree = 0\<rparr>),
                               (2, \<lparr>in_degree = 3, tot_degree = 8\<rparr>)]\<rparr>)"
proof (intro conjI)
  show "locally_optimal 1 [(1, [(2, 1)])]
     \<lparr>t_partition = [(1, 0)], t_degrees = [(1, 1)],
      t_community_degrees = [(0, \<lparr>in_degree = 0, tot_degree = 1\<rparr>)]\<rparr>"
    by (simp add: locally_optimal_def index_get_def)
  show "second_phase [(1, [(2, 1)])]
     \<lparr>t_partition = [(1, 0)], t_degrees = [(1, 1)],
      t_community_degrees = [(0, \<lparr>in_degree = 0, tot_degree = 1\<rparr>)]\<rparr> 1 =
     Some (False,
       \<lparr>t_partition = [(1, 0), (2, 0)], t_degrees = [(1, 1)],
        t_community_degrees = [(0, \<lparr>in_degree = 0, tot_degree = 1\<rparr>)]\<rparr>)"
    by code_simp
  show "first_phase
     \<lparr>keys_batches = [[1]], neighbors_of = (\<lambda>v. if v = 1 then [2] else []),
      degree_of = (\<lambda>v. 1), number_of_edges = 1\<rparr>
     \<lparr>t_partition = [(1, 0)], t_degrees = [(1, 1)],
      t_community_degrees = [(0, \<lparr>in_degree = 0, tot_degree = 1\<rparr>)]\<rparr> 1 =
     Some (False,
       \<lparr>t_partition = [(1, 0), (2, 0)], t_degrees = [(1, 1)],
        t_community_degrees = [(0, \<lparr>in_degree = 0, tot_degree = 1\<rparr>)]\<rparr>)"
    by code_simp
  show "tables_closed [(1, [(2, 3)])]
     \<lparr>t_partition = [(1, 1), (2, 2)], t_degrees = [(1, 6), (2, 5)],
      t_community_degrees = [(1, \<lparr>in_degree = 0, tot_degree = 6\<rparr>),
                             (2, \<lparr>in_degree = 0, tot_degree = 5\<rparr>)]\<rparr>"
    by (simp add: tables_closed_def index_get_def)
  show "delta_formula 5 6 3 0 5 6 = 0"
    by (simp add: delta_formula_def)
  show "second_phase_delta 5 6 3 0 5 6 = Fin (1 / 2 ^ 53)"
    by code_simp
  show "second_phase [(1, [(2, 3)])]
     \<lparr>t_partition = [(1, 1), (2, 2)], t_degrees = [(1, 6), (2, 5)],
      t_community_degrees = [(1, \<lparr>in_degree = 0, tot_degree = 6\<rparr>),
                             (2, \<lparr>in_degree = 0, tot_degree = 5\<rparr>)]\<rparr> 5 =
     Some (True,
       \<lparr>t_partition = [(1, 2), (2, 2)], t_degrees = [(1, 6), (2, 5)],
        t_community_degrees = [(1, \<lparr>in_degree = 0, tot_degree = 0\<rparr>),
                               (2, \<lparr>in_degree = 3, tot_degree = 8\<rparr>)]\<rparr>)"
    by code_simp
qed

text \<open>
  C7 (amended). On tables in which every key that a sweep reads is present (each vertex
  in the Partition and in the degree table, each neighbour in the Partition, and their
  communities in the Community Degree Stats), and in which no vertex has a neighbouring
  community whose delta, as the engine computes it in binary64, is strictly positive, the
  Local-Move Engine makes one sweep with no move (the flags \<open>modified\<close> and \<open>improvement\<close>
  stay false), leaves the partition, the degrees and the Community Degree Stats as they
  were, and returns false; in both modes.
\<close>

theorem local_move_idempotent:
  "(tables_closed graph' s \<and> locally_optimal count_edges graph' s \<longrightarrow>
      second_phase_sweep count_edges graph' (False, False, s) = (False, False, s)
      \<and> second_phase graph' s count_edges = Some (False, s))
   \<and> (tables_closed (store_graph g) s \<and> locally_optimal count_edges (store_graph g) s \<longrightarrow>
      first_phase_sweep g count_edges (vertex_stream g) (False, False, s) = (False, False, s)
      \<and> first_phase g s count_edges = Some (False, s))"
  using second_phase_sweep_optimal [OF _ _ subset_refl, of count_edges _ s False False]
  by (simp add: second_phase_while_optimal first_phase_while_optimal
      first_phase_sweep_store_graph second_phase_def first_phase_def)

theorem local_move_idempotent_witness:
  "second_phase [(1, [(2, 1)])]
     \<lparr>t_partition = [(1, 1), (2, 2)], t_degrees = [(1, 1), (2, 1)],
      t_community_degrees = [(1, \<lparr>in_degree = 0, tot_degree = 1\<rparr>),
                             (2, \<lparr>in_degree = 0, tot_degree = 2\<rparr>)]\<rparr> 1 =
   Some (False,
     \<lparr>t_partition = [(1, 1), (2, 2)], t_degrees = [(1, 1), (2, 1)],
      t_community_degrees = [(1, \<lparr>in_degree = 0, tot_degree = 1\<rparr>),
                             (2, \<lparr>in_degree = 0, tot_degree = 2\<rparr>)]\<rparr>)
   \<and> first_phase
     \<lparr>keys_batches = [[1]], neighbors_of = (\<lambda>v. if v = 1 then [2] else []),
      degree_of = (\<lambda>v. 1), number_of_edges = 1\<rparr>
     \<lparr>t_partition = [(1, 1), (2, 2)], t_degrees = [(1, 1), (2, 1)],
      t_community_degrees = [(1, \<lparr>in_degree = 0, tot_degree = 1\<rparr>),
                             (2, \<lparr>in_degree = 0, tot_degree = 2\<rparr>)]\<rparr> 1 =
   Some (False,
     \<lparr>t_partition = [(1, 1), (2, 2)], t_degrees = [(1, 1), (2, 1)],
      t_community_degrees = [(1, \<lparr>in_degree = 0, tot_degree = 1\<rparr>),
                             (2, \<lparr>in_degree = 0, tot_degree = 2\<rparr>)]\<rparr>)"
proof -
  let ?gr = "[(1, [(2, 1)])] :: graph_t"
  let ?g = "\<lparr>keys_batches = [[1]], neighbors_of = (\<lambda>v. if v = 1 then [2] else []),
      degree_of = (\<lambda>v. 1), number_of_edges = 1\<rparr>"
  let ?s = "\<lparr>t_partition = [(1, 1), (2, 2)], t_degrees = [(1, 1), (2, 1)],
      t_community_degrees = [(1, \<lparr>in_degree = 0, tot_degree = 1\<rparr>),
                             (2, \<lparr>in_degree = 0, tot_degree = 2\<rparr>)]\<rparr>"
  have sg: "store_graph ?g = ?gr"
    by (simp add: store_graph_def vertex_stream_def unit_weights_def)
  have tc: "tables_closed ?gr ?s"
    by (simp add: tables_closed_def index_get_def)
  have lo: "locally_optimal 1 ?gr ?s"
    by code_simp
  from local_move_idempotent [of ?gr ?s 1 ?g] tc lo sg
  show ?thesis by simp
qed

text \<open>
  C8. When the Level-0 optimisation reports no improvement, the driver returns the
  Level-0 partition itself: the evaluator and the inducer do not throw, the driver loop
  is not entered, and flattening the one-level stack changes nothing.
\<close>

theorem no_improvement_returns_level0:
  assumes "first_phase g (initialize g) (number_of_edges g) = Some (False, s)"
  shows "best_partition g min_modularity_growth = Some (Inr (t_partition s))"
  using assms by (rule best_partition_single_level)

theorem no_improvement_returns_level0_witness:
  "best_partition
     \<lparr>keys_batches = [[1], [2]], neighbors_of = (\<lambda>v. []), degree_of = (\<lambda>v. 0),
      number_of_edges = 0\<rparr> default_min_modularity_growth = Some (Inr [(1, 1), (2, 2)])"
proof -
  let ?g = "\<lparr>keys_batches = [[1], [2]], neighbors_of = (\<lambda>v. []), degree_of = (\<lambda>v. 0),
      number_of_edges = 0\<rparr>"
  let ?s = "\<lparr>t_partition = [(1, 1), (2, 2)], t_degrees = [(1, 0), (2, 0)],
      t_community_degrees = [(1, \<lparr>in_degree = 0, tot_degree = 0\<rparr>),
                             (2, \<lparr>in_degree = 0, tot_degree = 0\<rparr>)]\<rparr>"
  have "first_phase ?g (initialize ?g) (number_of_edges ?g) = Some (False, ?s)"
    by code_simp
  from no_improvement_returns_level0 [OF this, of default_min_modularity_growth]
  show ?thesis by simp
qed

text \<open>
  C10 (as stated, refuted). The stream enumerates the one vertex 1, whose neighbour list
  names vertex 2. The Level-0 sweep reads \<^verbatim>\<open>partition[neighbor]\<close> (line 58), which inserts
  the key 2, and the driver returns a mapping with the keys 1 and 2.
\<close>

theorem best_partition_adds_key:
  "best_partition
     \<lparr>keys_batches = [[1]], neighbors_of = (\<lambda>v. if v = 1 then [2] else []),
      degree_of = (\<lambda>v. 1), number_of_edges = 1\<rparr>
     default_min_modularity_growth = Some (Inr [(1, 0), (2, 0)])
   \<and> fst ` set [(1, 0), (2, 0 :: ustore_key_t)] = {1, 2 :: ustore_key_t}
   \<and> set (vertex_stream
     \<lparr>keys_batches = [[1]], neighbors_of = (\<lambda>v. if v = 1 then [2] else []),
      degree_of = (\<lambda>v. 1), number_of_edges = 1 :: 64 word\<rparr>) = {1}"
proof (intro conjI)
  show "best_partition
     \<lparr>keys_batches = [[1]], neighbors_of = (\<lambda>v. if v = 1 then [2] else []),
      degree_of = (\<lambda>v. 1), number_of_edges = 1\<rparr>
     default_min_modularity_growth = Some (Inr [(1, 0), (2, 0)])"
    by code_simp
  show "fst ` set [(1, 0), (2, 0 :: ustore_key_t)] = {1, 2 :: ustore_key_t}"
    by simp
  show "set (vertex_stream
     \<lparr>keys_batches = [[1]], neighbors_of = (\<lambda>v. if v = 1 then [2] else []),
      degree_of = (\<lambda>v. 1), number_of_edges = 1 :: 64 word\<rparr>) = {1}"
    by (simp add: vertex_stream_def)
qed

text \<open>
  C10 (amended). On a store whose neighbour lists name only vertices of the vertex
  stream, the driver does not throw, and whenever it returns, the keys of the mapping it
  returns are exactly the vertices enumerated during initialisation. The sweep loops of
  the engine have no bound on their number of sweeps, so the other outcome is a run that
  does not end (\<open>None\<close>).
\<close>

theorem best_partition_keys:
  assumes "\<forall>v \<in> set (vertex_stream g). set (neighbors_of g v) \<subseteq> set (vertex_stream g)"
  shows "best_partition g min_modularity_growth = None
    \<or> (\<exists>r. best_partition g min_modularity_growth = Some (Inr r)
          \<and> fst ` set r = set (vertex_stream g))"
proof (cases "best_partition g min_modularity_growth")
  case None
  then show ?thesis by simp
next
  case (Some y)
  from best_partition_total [OF Some] obtain r where "y = Inr r" by blast
  then have r: "best_partition g min_modularity_growth = Some (Inr r)" using Some by simp
  from best_partition_keys_closed [OF assms r] r show ?thesis by simp
qed

theorem best_partition_keys_witness:
  "best_partition
     \<lparr>keys_batches = [[1, 2], [3]],
      neighbors_of = (\<lambda>v. if v = 1 then [2] else if v = 2 then [1] else []),
      degree_of = (\<lambda>v. if v = 3 then 0 else 1), number_of_edges = 1\<rparr>
     default_min_modularity_growth = Some (Inr [(1, 0), (2, 0), (3, 0)])
   \<and> fst ` set [(1, 0), (2, 0), (3, 0 :: ustore_key_t)] = {1, 2, 3 :: ustore_key_t}"
proof -
  let ?g = "\<lparr>keys_batches = [[1, 2], [3]],
      neighbors_of = (\<lambda>v. if v = 1 then [2] else if v = 2 then [1] else []),
      degree_of = (\<lambda>v. if v = 3 then 0 else 1), number_of_edges = 1\<rparr>"
  have c: "\<forall>v \<in> set (vertex_stream ?g). set (neighbors_of ?g v) \<subseteq> set (vertex_stream ?g)"
    by (simp add: vertex_stream_def)
  have r: "best_partition ?g default_min_modularity_growth = Some (Inr [(1, 0), (2, 0), (3, 0)])"
    by code_simp
  from best_partition_keys [OF c, of default_min_modularity_growth] r
  show ?thesis by (simp add: vertex_stream_def)
qed

text \<open>
  C1 (as stated, refuted). One vertex and no edge: the driver does not short-circuit.
  The Level-0 sweep runs (and moves nothing), and the Modularity Evaluator is called with
  \<open>deg_sum = edge_count = 0\<close>: its normaliser \<open>1/(m*m)\<close> is a division by zero, and its
  result is NaN.
\<close>

theorem zero_edges_divides_by_zero:
  "first_phase
     \<lparr>keys_batches = [[1]], neighbors_of = (\<lambda>v. []), degree_of = (\<lambda>v. 0),
      number_of_edges = 0\<rparr>
     (initialize \<lparr>keys_batches = [[1]], neighbors_of = (\<lambda>v. []), degree_of = (\<lambda>v. 0),
      number_of_edges = 0\<rparr>) 0 =
     Some (False, \<lparr>t_partition = [(1, 1)], t_degrees = [(1, 0)],
       t_community_degrees = [(1, \<lparr>in_degree = 0, tot_degree = 0\<rparr>)]\<rparr>)
   \<and> modularity [(1, 1)] [(1, \<lparr>in_degree = 0, tot_degree = 0\<rparr>)] (real (unat (0 :: 64 word)))
       = Inr NaN
   \<and> ddiv 1 (real (unat (0 :: 64 word)) / 2 * (real (unat (0 :: 64 word)) / 2)) = PInf"
proof (intro conjI)
  show "first_phase
     \<lparr>keys_batches = [[1]], neighbors_of = (\<lambda>v. []), degree_of = (\<lambda>v. 0),
      number_of_edges = 0\<rparr>
     (initialize \<lparr>keys_batches = [[1]], neighbors_of = (\<lambda>v. []), degree_of = (\<lambda>v. 0),
      number_of_edges = 0\<rparr>) 0 =
     Some (False, \<lparr>t_partition = [(1, 1)], t_degrees = [(1, 0)],
       t_community_degrees = [(1, \<lparr>in_degree = 0, tot_degree = 0\<rparr>)]\<rparr>)"
    by code_simp
  show "modularity [(1, 1)] [(1, \<lparr>in_degree = 0, tot_degree = 0\<rparr>)] (real (unat (0 :: 64 word)))
       = Inr NaN"
    by (simp add: modularity_def ddiv_def dsub_def)
  show "ddiv 1 (real (unat (0 :: 64 word)) / 2 * (real (unat (0 :: 64 word)) / 2)) = PInf"
    by (simp add: ddiv_def)
qed

text \<open>
  C1 (amended). For every graph handle whose vertices have no neighbours (an edgeless
  graph, whatever its edge count), the driver returns the identity partition, each vertex
  of the stream mapped to itself: with no neighbour no delta is computed and no vertex
  moves. Nothing is short-circuited.
\<close>

theorem edgeless_identity:
  assumes "\<forall>v \<in> set (vertex_stream g). neighbors_of g v = []"
  shows "best_partition g min_modularity_growth = Some (Inr (t_partition (initialize g)))
    \<and> (\<forall>k. map_of (t_partition (initialize g)) k =
           (if k \<in> set (vertex_stream g) then Some k else None))"
  using best_partition_single_level [OF edgeless_first_phase [OF assms]]
  by (simp add: initialize_tables)

theorem edgeless_identity_witness:
  "best_partition
     \<lparr>keys_batches = [[1, 2]], neighbors_of = (\<lambda>v. []), degree_of = (\<lambda>v. 0),
      number_of_edges = 0\<rparr> default_min_modularity_growth = Some (Inr [(1, 1), (2, 2)])"
proof -
  let ?g = "\<lparr>keys_batches = [[1, 2]], neighbors_of = (\<lambda>v. []), degree_of = (\<lambda>v. 0),
      number_of_edges = 0\<rparr>"
  have "\<forall>v \<in> set (vertex_stream ?g). neighbors_of ?g v = []" by simp
  from edgeless_identity [OF this, of default_min_modularity_growth]
  show ?thesis by (simp add: initialize_def)
qed

section \<open>Degree conservation\<close>

lemma index_get_modify:
  "index_get community_degree_0 (index_modify f m k) c =
   (if c = k then f (index_get community_degree_0 m k) else index_get community_degree_0 m c)"
  by (simp add: index_modify_def index_get_def AList.update_conv')

lemma total_degree_sum_touch [simp]:
  "total_degree_sum (index_touch community_degree_0 m k) = total_degree_sum m"
proof (cases "k \<in> fst ` set m")
  case True
  then show ?thesis by (simp add: touch_present)
next
  case False
  then have "tot_degree (index_get community_degree_0 m k) = 0"
    by (simp add: index_get_absent community_degree_0_def)
  with False show ?thesis by (simp add: total_degree_sum_def)
qed

lemma total_degree_sum_foldl_touch [simp]:
  "total_degree_sum (foldl (index_touch community_degree_0) m ks) = total_degree_sum m"
  by (induction ks arbitrary: m) simp_all

lemma total_degree_sum_modify:
  "total_degree_sum (index_modify f m k) =
   total_degree_sum m - tot_degree (index_get community_degree_0 m k)
     + tot_degree (f (index_get community_degree_0 m k))"
proof -
  let ?K = "fst ` set m"
  let ?h = "\<lambda>c. tot_degree (index_get community_degree_0 m c)"
  have fin: "finite (?K - {k})" by simp
  have "total_degree_sum (index_modify f m k) =
      tot_degree (f (index_get community_degree_0 m k)) + (\<Sum>c \<in> ?K - {k}. ?h c)"
    unfolding total_degree_sum_def keys_index_modify
    by (subst sum.insert_remove) (simp_all add: index_get_modify)
  moreover have "total_degree_sum m = ?h k + (\<Sum>c \<in> ?K - {k}. ?h c)"
  proof (cases "k \<in> ?K")
    case True
    then show ?thesis unfolding total_degree_sum_def by (simp add: sum.remove)
  next
    case False
    then have "?h k = 0" by (simp add: index_get_absent community_degree_0_def)
    with False show ?thesis unfolding total_degree_sum_def by simp
  qed
  ultimately show ?thesis by simp
qed

lemma total_degree_sum_move:
  "total_degree_sum (snd (move_vertex v a b vd t tv p cd)) = total_degree_sum cd + tv - t b"
  by (simp add: move_vertex_def Let_def total_degree_sum_modify index_get_modify)

lemma second_phase_vertex_total_degree:
  assumes "second_phase_vertex E (v, ns) s = (True, s')"
  shows "total_degree_sum (t_community_degrees s') =
     total_degree_sum (t_community_degrees s)
       + tally (t_partition s) ns (index_get 0 (t_partition s) v)
       - tally (t_partition s) ns (index_get 0 (t_partition s') v)"
proof -
  let ?b = "chosen_community E (v, ns) s"
  from assms have b: "?b \<noteq> index_get 0 (t_partition s) v"
    by (auto simp: second_phase_vertex_eq Let_def split: if_splits)
  with assms have s': "s' = \<lparr>t_partition = AList.update v ?b (touched_partition (t_partition s) v ns),
      t_degrees = index_touch 0 (t_degrees s) v,
      t_community_degrees = snd (move_vertex v (index_get 0 (t_partition s) v) ?b
         (index_get 0 (t_degrees s) v) (tally (t_partition s) ns)
         (tally (t_partition s) ns (index_get 0 (t_partition s) v))
         (touched_partition (t_partition s) v ns)
         (touched_stats (t_community_degrees s) (t_partition s) v ns))\<rparr>"
    by (simp add: second_phase_vertex_eq Let_def)
  have "index_get 0 (t_partition s') v = ?b"
    unfolding s' by (simp add: index_get_def AList.update_conv')
  then show ?thesis
    unfolding s' by (simp add: total_degree_sum_move touched_stats_def del: foldl.simps foldl_Cons)
qed

text \<open>
  C2 (as stated, refuted). The two-vertex graph with one edge, after initialisation: the
  sweep body moves vertex 1 into the community of vertex 2. Afterwards the sum of
  \<open>tot_degree\<close> over the communities is 1, the sum of the vertex degrees is 2.
\<close>

theorem degree_conservation_counterexample:
  "first_phase_vertex
     \<lparr>keys_batches = [[1, 2]],
      neighbors_of = (\<lambda>v. if v = 1 then [2] else if v = 2 then [1] else []),
      degree_of = (\<lambda>v. 1), number_of_edges = 1\<rparr> 1 1
     \<lparr>t_partition = [(1, 1), (2, 2)], t_degrees = [(1, 1), (2, 1)],
      t_community_degrees = [(1, \<lparr>in_degree = 0, tot_degree = 1\<rparr>),
                             (2, \<lparr>in_degree = 0, tot_degree = 1\<rparr>)]\<rparr> =
     (True,
      \<lparr>t_partition = [(1, 2), (2, 2)], t_degrees = [(1, 1), (2, 1)],
       t_community_degrees = [(1, \<lparr>in_degree = 0, tot_degree = 0\<rparr>),
                              (2, \<lparr>in_degree = 1, tot_degree = 1\<rparr>)]\<rparr>)
   \<and> total_degree_sum [(1, \<lparr>in_degree = 0, tot_degree = 0\<rparr>),
                        (2, \<lparr>in_degree = 1, tot_degree = 1\<rparr>)] = 1
   \<and> vertex_degree_sum [(1, 1), (2, 1)] = 2"
proof (intro conjI)
  show "first_phase_vertex
     \<lparr>keys_batches = [[1, 2]],
      neighbors_of = (\<lambda>v. if v = 1 then [2] else if v = 2 then [1] else []),
      degree_of = (\<lambda>v. 1), number_of_edges = 1\<rparr> 1 1
     \<lparr>t_partition = [(1, 1), (2, 2)], t_degrees = [(1, 1), (2, 1)],
      t_community_degrees = [(1, \<lparr>in_degree = 0, tot_degree = 1\<rparr>),
                             (2, \<lparr>in_degree = 0, tot_degree = 1\<rparr>)]\<rparr> =
     (True,
      \<lparr>t_partition = [(1, 2), (2, 2)], t_degrees = [(1, 1), (2, 1)],
       t_community_degrees = [(1, \<lparr>in_degree = 0, tot_degree = 0\<rparr>),
                              (2, \<lparr>in_degree = 1, tot_degree = 1\<rparr>)]\<rparr>)"
    by code_simp
  show "total_degree_sum [(1, \<lparr>in_degree = 0, tot_degree = 0\<rparr>),
                        (2, \<lparr>in_degree = 1, tot_degree = 1\<rparr>)] = 1"
    by (simp add: total_degree_sum_def index_get_def)
  show "vertex_degree_sum [(1, 1), (2, 1)] = 2"
    by (simp add: vertex_degree_sum_def index_get_def)
qed

text \<open>
  C2 (amended). Every accepted move of the Local-Move Engine, in both modes, changes the
  sum of \<open>tot_degree\<close> over all communities by the tally of the moved vertex into its old
  community minus its tally into its new community (lines 80-82 subtract
  \<open>degree - tally\<close> from the old community and add \<open>degree - tally\<close> to the new one): the
  sum is preserved exactly when the two tallies are equal.
\<close>

theorem move_changes_total_degree_sum:
  "(second_phase_vertex count_edges (vertex', neighbors) s = (True, s') \<longrightarrow>
      total_degree_sum (t_community_degrees s') =
        total_degree_sum (t_community_degrees s)
          + tally (t_partition s) neighbors (index_get 0 (t_partition s) vertex')
          - tally (t_partition s) neighbors (index_get 0 (t_partition s') vertex'))
   \<and> (first_phase_vertex g count_edges vertex' s = (True, s') \<longrightarrow>
      total_degree_sum (t_community_degrees s') =
        total_degree_sum (t_community_degrees s)
          + tally (t_partition s) (unit_weights (neighbors_of g vertex'))
              (index_get 0 (t_partition s) vertex')
          - tally (t_partition s) (unit_weights (neighbors_of g vertex'))
              (index_get 0 (t_partition s') vertex'))"
  by (simp add: second_phase_vertex_total_degree first_phase_vertex_unit)

theorem move_changes_total_degree_sum_witness:
  "total_degree_sum [(1, \<lparr>in_degree = 0, tot_degree = 0\<rparr>),
                     (2, \<lparr>in_degree = 1, tot_degree = 1\<rparr>)] =
   total_degree_sum [(1, \<lparr>in_degree = 0, tot_degree = 1\<rparr>),
                     (2, \<lparr>in_degree = 0, tot_degree = 1\<rparr>)]
     + tally [(1, 1), (2, 2)] [(2, 1)] 1 - tally [(1, 1), (2, 2)] [(2, 1)] 2
   \<and> tally [(1, 1), (2, 2)] [(2, 1)] 1 = 0 \<and> tally [(1, 1), (2, 2)] [(2, 1)] 2 = 1"
proof -
  let ?g = "\<lparr>keys_batches = [[1, 2]],
      neighbors_of = (\<lambda>v. if v = 1 then [2] else if v = 2 then [1] else []),
      degree_of = (\<lambda>v. 1), number_of_edges = 1\<rparr>"
  let ?s = "\<lparr>t_partition = [(1, 1), (2, 2)], t_degrees = [(1, 1), (2, 1)],
      t_community_degrees = [(1, \<lparr>in_degree = 0, tot_degree = 1\<rparr>),
                             (2, \<lparr>in_degree = 0, tot_degree = 1\<rparr>)]\<rparr>"
  let ?s' = "\<lparr>t_partition = [(1, 2), (2, 2)], t_degrees = [(1, 1), (2, 1)],
       t_community_degrees = [(1, \<lparr>in_degree = 0, tot_degree = 0\<rparr>),
                              (2, \<lparr>in_degree = 1, tot_degree = 1\<rparr>)]\<rparr>"
  have m: "first_phase_vertex ?g 1 1 ?s = (True, ?s')" by code_simp
  have m2: "second_phase_vertex 1 (1, [(2, 1)]) ?s = (True, ?s')" by code_simp
  have t: "tally [(1, 1), (2, 2)] [(2, 1)] 1 = 0 \<and> tally [(1, 1), (2, 2)] [(2, 1)] 2 = 1"
    by (simp add: tally_def index_get_def)
  from move_changes_total_degree_sum [of 1 1 "[(2, 1)]" ?s ?s' ?g] m m2 t
  show ?thesis by (simp add: unit_weights_def index_get_def)
qed

section \<open>The invariant of the Community Degree Stats\<close>

lemma adjacency_entry:
  "distinct (map fst gr) \<Longrightarrow> (v, ns) \<in> set gr \<Longrightarrow> adjacency gr v = ns"
  by (simp add: adjacency_def index_get_def)

lemma edge_weight_Nil [simp]: "edge_weight [] v = 0"
  by (simp add: edge_weight_def)

lemma tally_by_vertex:
  assumes "fst ` set ns \<subseteq> V" and "finite V"
  shows "tally p ns c = (\<Sum>u \<in> V. if index_get 0 p u = c then edge_weight ns u else 0)"
  using assms(1)
proof (induction ns)
  case Nil
  then show ?case by (simp add: tally_def cong: if_cong)
next
  case (Cons n ns)
  have n: "fst n \<in> V" using Cons.prems by simp
  have ih: "tally p ns c = (\<Sum>u \<in> V. if index_get 0 p u = c then edge_weight ns u else 0)"
    using Cons by simp
  have "(\<Sum>u \<in> V. if index_get 0 p u = c then edge_weight (n # ns) u else 0) =
      (\<Sum>u \<in> V. (if u = fst n then (if index_get 0 p (fst n) = c then snd n else 0) else 0)
                + (if index_get 0 p u = c then edge_weight ns u else 0))"
    by (rule sum.cong) (auto simp: edge_weight_def)
  also have "\<dots> = (if index_get 0 p (fst n) = c then snd n else 0)
      + (\<Sum>u \<in> V. if index_get 0 p u = c then edge_weight ns u else 0)"
    using n assms(2) by (simp add: sum.distrib)
  finally show ?case using ih by (simp add: tally_def)
qed

lemma tally_update:
  assumes "index_get 0 p' = (index_get 0 p)(v := b)" and "index_get 0 p v = a" and "a \<noteq> b"
  shows "tally p' ns c = tally p ns c + (if c = b then edge_weight ns v else 0)
           - (if c = a then edge_weight ns v else 0)"
proof (induction ns)
  case Nil
  then show ?case by (simp add: tally_def edge_weight_def)
next
  case (Cons n ns)
  have t: "tally q (n # ns) c = (if index_get 0 q (fst n) = c then snd n else 0) + tally q ns c" for q
    by (simp add: tally_def)
  have e: "edge_weight (n # ns) v = (if fst n = v then snd n else 0) + edge_weight ns v"
    by (simp add: edge_weight_def)
  show ?case
    unfolding t e Cons.IH using assms by (cases "fst n = v") auto
qed

lemma tally_bounds:
  assumes "\<forall>n \<in> set ns. 0 \<le> snd n"
  shows "0 \<le> tally p ns c" and "tally p ns c \<le> adjacency_weight ns" and "0 \<le> edge_weight ns v"
proof -
  show "0 \<le> tally p ns c"
    unfolding tally_def using assms by (intro sum_list_nonneg) auto
  show "tally p ns c \<le> adjacency_weight ns"
    unfolding tally_def adjacency_weight_def using assms by (intro sum_list_mono) auto
  show "0 \<le> edge_weight ns v"
    unfolding edge_weight_def using assms by (intro sum_list_nonneg) auto
qed

lemma gap_move:
  assumes "a \<noteq> b"
  shows "tot_degree (index_get community_degree_0 (snd (move_vertex v a b vd t tv p cd)) c)
       - in_degree (index_get community_degree_0 (snd (move_vertex v a b vd t tv p cd)) c) =
     tot_degree (index_get community_degree_0 cd c) - in_degree (index_get community_degree_0 cd c)
       + (if c = a then 2 * tv - vd else 0) + (if c = b then vd - 2 * t b else 0)"
  using assms by (simp add: move_vertex_def Let_def index_get_modify)

lemma index_get_update:
  "index_get d (AList.update k v m) = (index_get d m)(k := v)"
  by (intro ext) (simp add: index_get_def AList.update_conv')

lemma touched_stats_view [simp]:
  "index_get community_degree_0 (touched_stats cd p v ns) k = index_get community_degree_0 cd k"
  by (simp add: touched_stats_def del: foldl.simps foldl_Cons)


lemma tally_view: "index_get 0 p' = index_get 0 p \<Longrightarrow> tally p' = tally p"
  by (intro ext) (simp add: tally_def)

lemma undirected_entry:
  assumes "undirected gr" and "(v, ns) \<in> set gr"
  shows "adjacency gr v = ns" and "v \<in> fst ` set gr" and "fst ` set ns \<subseteq> fst ` set gr"
    and "\<forall>n \<in> set ns. 0 \<le> snd n"
    and "\<And>u. u \<in> fst ` set gr \<Longrightarrow> edge_weight (adjacency gr u) v = edge_weight ns u"
proof -
  have d: "distinct (map fst gr)" using assms(1) by (simp add: undirected_def)
  show adj: "adjacency gr v = ns" using adjacency_entry [OF d assms(2)] .
  show v: "v \<in> fst ` set gr" using assms(2) by (metis fst_conv image_eqI)
  have "\<forall>e \<in> set gr. fst ` set (snd e) \<subseteq> fst ` set gr \<and> (\<forall>n \<in> set (snd e). 0 \<le> snd n)"
    using assms(1) by (simp add: undirected_def)
  from bspec [OF this assms(2)]
  show "fst ` set ns \<subseteq> fst ` set gr" and "\<forall>n \<in> set ns. 0 \<le> snd n" by simp_all
  have s: "\<forall>u \<in> fst ` set gr. \<forall>v \<in> fst ` set gr.
      edge_weight (adjacency gr u) v = edge_weight (adjacency gr v) u"
    using assms(1) by (simp add: undirected_def)
  show "edge_weight (adjacency gr u) v = edge_weight ns u" if "u \<in> fst ` set gr" for u
    using bspec [OF bspec [OF s that] v] adj by simp
qed

lemma boundary_split:
  assumes "v \<in> fst ` set gr"
  shows "boundary gr s c =
     (if index_get 0 (t_partition s) v = c
      then index_get 0 (t_degrees s) v - tally (t_partition s) (adjacency gr v) c else 0)
     + (\<Sum>u \<in> fst ` set gr - {v}.
          if index_get 0 (t_partition s) u = c
          then index_get 0 (t_degrees s) u - tally (t_partition s) (adjacency gr u) c else 0)"
  unfolding boundary_def using assms by (subst sum.remove [of _ v]) simp_all

lemma tally_others:
  assumes "v \<in> V" and "finite V" and "fst ` set ns \<subseteq> V"
  shows "(\<Sum>u \<in> V - {v}. if index_get 0 p u = c then edge_weight ns u else 0) =
     tally p ns c - (if index_get 0 p v = c then edge_weight ns v else 0)"
proof -
  have "tally p ns c = (\<Sum>u \<in> V. if index_get 0 p u = c then edge_weight ns u else 0)"
    by (rule tally_by_vertex [OF assms(3,2)])
  also have "\<dots> = (if index_get 0 p v = c then edge_weight ns v else 0)
      + (\<Sum>u \<in> V - {v}. if index_get 0 p u = c then edge_weight ns u else 0)"
    using assms(1,2) by (subst sum.remove [of _ v]) simp_all
  finally show ?thesis by simp
qed

lemma boundary_move_old:
  assumes wf: "undirected gr" and e: "(v, ns) \<in> set gr"
    and P': "index_get 0 (t_partition s') = (index_get 0 (t_partition s))(v := b)"
    and D': "index_get 0 (t_degrees s') = index_get 0 (t_degrees s)"
    and a: "index_get 0 (t_partition s) v = a" and ab: "a \<noteq> b"
  shows "boundary gr s' a =
     boundary gr s a + 2 * tally (t_partition s) ns a - index_get 0 (t_degrees s) v
       - edge_weight ns v"
proof -
  let ?V = "fst ` set gr"
  note u = undirected_entry [OF wf e]
  have P'v: "index_get 0 (t_partition s') v = b" using P' by simp
  have rest: "(\<Sum>u \<in> ?V - {v}.
          if index_get 0 (t_partition s') u = a
          then index_get 0 (t_degrees s') u - tally (t_partition s') (adjacency gr u) a else 0) =
      (\<Sum>u \<in> ?V - {v}.
          (if index_get 0 (t_partition s) u = a
           then index_get 0 (t_degrees s) u - tally (t_partition s) (adjacency gr u) a else 0)
          + (if index_get 0 (t_partition s) u = a then edge_weight ns u else 0))"
  proof (rule sum.cong [OF refl])
    fix x assume x: "x \<in> ?V - {v}"
    then have p: "index_get 0 (t_partition s') x = index_get 0 (t_partition s) x"
      using P' by simp
    have w: "edge_weight (adjacency gr x) v = edge_weight ns x" using u(5) x by simp
    have t: "tally (t_partition s') (adjacency gr x) a =
        tally (t_partition s) (adjacency gr x) a - edge_weight ns x"
      using tally_update [OF P' a ab, of "adjacency gr x" a] ab w by simp
    show "(if index_get 0 (t_partition s') x = a
          then index_get 0 (t_degrees s') x - tally (t_partition s') (adjacency gr x) a else 0) =
        (if index_get 0 (t_partition s) x = a
           then index_get 0 (t_degrees s) x - tally (t_partition s) (adjacency gr x) a else 0)
          + (if index_get 0 (t_partition s) x = a then edge_weight ns x else 0)"
      unfolding p t D' by simp
  qed
  have others: "(\<Sum>u \<in> ?V - {v}. if index_get 0 (t_partition s) u = a then edge_weight ns u else 0)
      = tally (t_partition s) ns a - edge_weight ns v"
    using tally_others [OF u(2) _ u(3), of "t_partition s" a] a by simp
  have "boundary gr s' a = (\<Sum>u \<in> ?V - {v}.
          if index_get 0 (t_partition s') u = a
          then index_get 0 (t_degrees s') u - tally (t_partition s') (adjacency gr u) a else 0)"
    unfolding boundary_split [OF u(2)] using P'v ab by simp
  also have "\<dots> = (\<Sum>u \<in> ?V - {v}.
          if index_get 0 (t_partition s) u = a
           then index_get 0 (t_degrees s) u - tally (t_partition s) (adjacency gr u) a else 0)
       + (tally (t_partition s) ns a - edge_weight ns v)"
    unfolding rest sum.distrib others ..
  also have "\<dots> = boundary gr s a - (index_get 0 (t_degrees s) v - tally (t_partition s) ns a)
       + (tally (t_partition s) ns a - edge_weight ns v)"
    unfolding boundary_split [OF u(2), of s a] using a u(1) by simp
  finally show ?thesis by simp
qed


lemma boundary_move_new:
  assumes wf: "undirected gr" and e: "(v, ns) \<in> set gr"
    and P': "index_get 0 (t_partition s') = (index_get 0 (t_partition s))(v := b)"
    and D': "index_get 0 (t_degrees s') = index_get 0 (t_degrees s)"
    and a: "index_get 0 (t_partition s) v = a" and ab: "a \<noteq> b"
  shows "boundary gr s' b =
     boundary gr s b + index_get 0 (t_degrees s) v - 2 * tally (t_partition s) ns b
       - edge_weight ns v"
proof -
  let ?V = "fst ` set gr"
  note u = undirected_entry [OF wf e]
  have P'v: "index_get 0 (t_partition s') v = b" using P' by simp
  have rest: "(\<Sum>u \<in> ?V - {v}.
          if index_get 0 (t_partition s') u = b
          then index_get 0 (t_degrees s') u - tally (t_partition s') (adjacency gr u) b else 0) =
      (\<Sum>u \<in> ?V - {v}.
          (if index_get 0 (t_partition s) u = b
           then index_get 0 (t_degrees s) u - tally (t_partition s) (adjacency gr u) b else 0)
          - (if index_get 0 (t_partition s) u = b then edge_weight ns u else 0))"
  proof (rule sum.cong [OF refl])
    fix x assume x: "x \<in> ?V - {v}"
    then have p: "index_get 0 (t_partition s') x = index_get 0 (t_partition s) x"
      using P' by simp
    have w: "edge_weight (adjacency gr x) v = edge_weight ns x" using u(5) x by simp
    have t: "tally (t_partition s') (adjacency gr x) b =
        tally (t_partition s) (adjacency gr x) b + edge_weight ns x"
      using tally_update [OF P' a ab, of "adjacency gr x" b] ab w by simp
    show "(if index_get 0 (t_partition s') x = b
          then index_get 0 (t_degrees s') x - tally (t_partition s') (adjacency gr x) b else 0) =
        (if index_get 0 (t_partition s) x = b
           then index_get 0 (t_degrees s) x - tally (t_partition s) (adjacency gr x) b else 0)
          - (if index_get 0 (t_partition s) x = b then edge_weight ns x else 0)"
      unfolding p t D' by simp
  qed
  have others: "(\<Sum>u \<in> ?V - {v}. if index_get 0 (t_partition s) u = b then edge_weight ns u else 0)
      = tally (t_partition s) ns b"
    using tally_others [OF u(2) _ u(3), of "t_partition s" b] a ab by simp
  have tv: "tally (t_partition s') ns b = tally (t_partition s) ns b + edge_weight ns v"
    using tally_update [OF P' a ab, of ns b] ab by simp
  have "boundary gr s' b =
      (index_get 0 (t_degrees s) v - tally (t_partition s) ns b - edge_weight ns v)
      + (\<Sum>u \<in> ?V - {v}.
          if index_get 0 (t_partition s') u = b
          then index_get 0 (t_degrees s') u - tally (t_partition s') (adjacency gr u) b else 0)"
    unfolding boundary_split [OF u(2)] using P'v u(1) tv D' by simp
  also have "\<dots> = (index_get 0 (t_degrees s) v - tally (t_partition s) ns b - edge_weight ns v)
      + ((\<Sum>u \<in> ?V - {v}.
          if index_get 0 (t_partition s) u = b
           then index_get 0 (t_degrees s) u - tally (t_partition s) (adjacency gr u) b else 0)
         - tally (t_partition s) ns b)"
    unfolding rest sum_subtractf others ..
  also have "\<dots> = (index_get 0 (t_degrees s) v - tally (t_partition s) ns b - edge_weight ns v)
      + (boundary gr s b - tally (t_partition s) ns b)"
    unfolding boundary_split [OF u(2), of s b] using a ab by simp
  finally show ?thesis by simp
qed

lemma boundary_move_other:
  assumes wf: "undirected gr" and e: "(v, ns) \<in> set gr"
    and P': "index_get 0 (t_partition s') = (index_get 0 (t_partition s))(v := b)"
    and D': "index_get 0 (t_degrees s') = index_get 0 (t_degrees s)"
    and a: "index_get 0 (t_partition s) v = a" and ab: "a \<noteq> b"
    and c: "c \<noteq> a" "c \<noteq> b"
  shows "boundary gr s' c = boundary gr s c"
proof -
  have t: "tally (t_partition s') ms c = tally (t_partition s) ms c" for ms
    using tally_update [OF P' a ab, of ms c] c by simp
  show ?thesis
    unfolding boundary_def D' t
  proof (rule sum.cong [OF refl])
    fix x assume "x \<in> fst ` set gr"
    have "(index_get 0 (t_partition s') x = c) = (index_get 0 (t_partition s) x = c)"
      using P' a c by (cases "x = v") auto
    then show "(if index_get 0 (t_partition s') x = c
          then index_get 0 (t_degrees s) x - tally (t_partition s) (adjacency gr x) c else 0) =
        (if index_get 0 (t_partition s) x = c
          then index_get 0 (t_degrees s) x - tally (t_partition s) (adjacency gr x) c else 0)"
      by simp
  qed
qed

lemma boundary_view:
  assumes "index_get 0 (t_partition s') = index_get 0 (t_partition s)"
    and "index_get 0 (t_degrees s') = index_get 0 (t_degrees s)"
  shows "boundary gr s' c = boundary gr s c"
  unfolding boundary_def assms tally_view [OF assms(1)] ..

lemma stats_invariant_step:
  assumes wf: "undirected gr" and inv: "stats_invariant gr s" and e: "(v, ns) \<in> set gr"
  shows "stats_invariant gr (snd (second_phase_vertex E (v, ns) s))"
proof -
  let ?s' = "snd (second_phase_vertex E (v, ns) s)"
  let ?a = "index_get 0 (t_partition s) v" and ?b = "chosen_community E (v, ns) s"
  let ?gap = "\<lambda>s c. tot_degree (index_get community_degree_0 (t_community_degrees s) c)
      - in_degree (index_get community_degree_0 (t_community_degrees s) c)"
  note u = undirected_entry [OF wf e]
  have D': "index_get 0 (t_degrees ?s') = index_get 0 (t_degrees s)"
    by (intro ext) (simp add: second_phase_vertex_eq Let_def)
  have deg: "\<forall>u \<in> fst ` set gr. adjacency_weight (adjacency gr u) \<le> index_get 0 (t_degrees ?s') u"
    using inv unfolding D' by (simp add: stats_invariant_def)
  have b0: "boundary gr s c \<le> ?gap s c" for c
    using inv by (simp add: stats_invariant_def)
  have "boundary gr ?s' c \<le> ?gap ?s' c" for c
  proof (cases "?b = ?a")
    case True
    have "index_get 0 (t_partition ?s') = index_get 0 (t_partition s)"
      using True by (intro ext) (simp add: second_phase_vertex_eq Let_def)
    from boundary_view [OF this D'] have "boundary gr ?s' c = boundary gr s c" .
    moreover have "?gap ?s' c = ?gap s c"
      using True by (simp add: second_phase_vertex_eq Let_def)
    ultimately show ?thesis using b0 [of c] by simp
  next
    case False
    then have ab: "?a \<noteq> ?b" by simp
    have P': "index_get 0 (t_partition ?s') = (index_get 0 (t_partition s))(v := ?b)"
      using False by (intro ext) (simp add: second_phase_vertex_eq Let_def index_get_update)
    have gap: "?gap ?s' c = ?gap s c
        + (if c = ?a then 2 * tally (t_partition s) ns ?a - index_get 0 (t_degrees s) v else 0)
        + (if c = ?b then index_get 0 (t_degrees s) v - 2 * tally (t_partition s) ns ?b else 0)"
      using False by (simp add: second_phase_vertex_eq Let_def gap_move [OF ab])
    have w: "0 \<le> edge_weight ns v" using tally_bounds(3) [OF u(4)] .
    consider (old) "c = ?a" | (new) "c = ?b" | (other) "c \<noteq> ?a" "c \<noteq> ?b" by blast
    then show ?thesis
    proof cases
      case old
      show ?thesis
        using boundary_move_old [OF wf e P' D' refl ab] gap b0 [of ?a] w ab unfolding old by simp
    next
      case new
      show ?thesis
        using boundary_move_new [OF wf e P' D' refl ab] gap b0 [of ?b] w ab unfolding new by simp
    next
      case other
      show ?thesis
        using boundary_move_other [OF wf e P' D' refl ab other] gap b0 [of c] other by simp
    qed
  qed
  with deg show ?thesis by (simp add: stats_invariant_def)
qed

lemma stats_invariant_bound:
  assumes wf: "undirected gr" and inv: "stats_invariant gr s"
  shows "in_degree (index_get community_degree_0 (t_community_degrees s) c)
       \<le> tot_degree (index_get community_degree_0 (t_community_degrees s) c)"
proof -
  have "0 \<le> boundary gr s c"
    unfolding boundary_def
  proof (rule sum_nonneg)
    fix x assume x: "x \<in> fst ` set gr"
    then obtain ns where e: "(x, ns) \<in> set gr" by fastforce
    note u = undirected_entry [OF wf e]
    have "tally (t_partition s) ns c \<le> adjacency_weight ns" using tally_bounds(2) [OF u(4)] .
    moreover have "adjacency_weight ns \<le> index_get 0 (t_degrees s) x"
      using inv x u(1) by (auto simp: stats_invariant_def)
    ultimately show "0 \<le> (if index_get 0 (t_partition s) x = c
        then index_get 0 (t_degrees s) x - tally (t_partition s) (adjacency gr x) c else 0)"
      using u(1) by simp
  qed
  moreover have "boundary gr s c \<le>
      tot_degree (index_get community_degree_0 (t_community_degrees s) c)
      - in_degree (index_get community_degree_0 (t_community_degrees s) c)"
    using inv by (simp add: stats_invariant_def)
  ultimately show ?thesis by simp
qed


lemma stats_invariant_start:
  assumes wf: "undirected gr"
    and V: "\<forall>u \<in> fst ` set gr. index_get 0 (t_partition s) u = u
        \<and> adjacency_weight (adjacency gr u) \<le> index_get 0 (t_degrees s) u
        \<and> index_get community_degree_0 (t_community_degrees s) u =
            \<lparr>in_degree = 0, tot_degree = index_get 0 (t_degrees s) u\<rparr>"
    and out: "\<forall>c. c \<notin> fst ` set gr \<longrightarrow>
        index_get community_degree_0 (t_community_degrees s) c = community_degree_0"
  shows "stats_invariant gr s"
proof -
  have "boundary gr s c \<le> tot_degree (index_get community_degree_0 (t_community_degrees s) c)
      - in_degree (index_get community_degree_0 (t_community_degrees s) c)" for c
  proof -
    have "boundary gr s c = (\<Sum>u \<in> fst ` set gr.
        if u = c then index_get 0 (t_degrees s) u - tally (t_partition s) (adjacency gr u) c else 0)"
      unfolding boundary_def
    proof (rule sum.cong [OF refl])
      fix x assume "x \<in> fst ` set gr"
      then have "index_get 0 (t_partition s) x = x" using V by blast
      then show "(if index_get 0 (t_partition s) x = c
          then index_get 0 (t_degrees s) x - tally (t_partition s) (adjacency gr x) c else 0) =
        (if x = c
          then index_get 0 (t_degrees s) x - tally (t_partition s) (adjacency gr x) c else 0)"
        by simp
    qed
    also have "\<dots> = (if c \<in> fst ` set gr
        then index_get 0 (t_degrees s) c - tally (t_partition s) (adjacency gr c) c else 0)"
      by (simp add: sum.delta')
    finally have b: "boundary gr s c = (if c \<in> fst ` set gr
        then index_get 0 (t_degrees s) c - tally (t_partition s) (adjacency gr c) c else 0)" .
    show ?thesis
    proof (cases "c \<in> fst ` set gr")
      case True
      then obtain ns where e: "(c, ns) \<in> set gr" by fastforce
      note u = undirected_entry [OF wf e]
      have "0 \<le> tally (t_partition s) (adjacency gr c) c"
        using tally_bounds(1) [OF u(4)] u(1) by simp
      moreover have "index_get community_degree_0 (t_community_degrees s) c =
            \<lparr>in_degree = 0, tot_degree = index_get 0 (t_degrees s) c\<rparr>"
        using bspec [OF V True] by simp
      ultimately show ?thesis using b True by simp
    next
      case False
      then show ?thesis using b out by (simp add: community_degree_0_def)
    qed
  qed
  moreover have "\<forall>u \<in> fst ` set gr.
      adjacency_weight (adjacency gr u) \<le> index_get 0 (t_degrees s) u"
    using V by blast
  ultimately show ?thesis unfolding stats_invariant_def by blast
qed

lemma second_phase_bodies_invariant:
  assumes "undirected gr" and "set es \<subseteq> set gr" and "stats_invariant gr s"
  shows "stats_invariant gr (second_phase_bodies E es s)"
  using assms(2,3)
proof (induction es arbitrary: s)
  case Nil
  then show ?case by (simp add: second_phase_bodies_def)
next
  case (Cons e es)
  obtain v ns where e: "e = (v, ns)" by (cases e)
  have "stats_invariant gr (snd (second_phase_vertex E e s))"
    unfolding e using Cons.prems e by (intro stats_invariant_step [OF assms(1)]) simp_all
  from Cons.IH [OF _ this] Cons.prems(1) show ?case by (simp add: second_phase_bodies_def)
qed

lemma first_phase_bodies_unit:
  "first_phase_bodies g E vs s =
   second_phase_bodies E (map (\<lambda>v. (v, unit_weights (neighbors_of g v))) vs) s"
  by (induction vs arbitrary: s)
     (simp_all add: first_phase_bodies_def second_phase_bodies_def first_phase_vertex_unit)

text \<open>The initial tables of a level satisfy the invariant.\<close>

lemma level_degree_eq:
  "fst (level_degree d ce ns) = d + adjacency_weight ns"
  by (induction ns arbitrary: d ce) (simp_all add: adjacency_weight_def)

lemma level_tables_views:
  assumes "distinct (map fst gr)"
  shows "index_get 0 (t_partition (fst (level_tables gr (s, ds, ce)))) u =
       (if u \<in> fst ` set gr then u else index_get 0 (t_partition s) u)
    \<and> index_get 0 (t_degrees (fst (level_tables gr (s, ds, ce)))) u =
       (if u \<in> fst ` set gr then adjacency_weight (adjacency gr u)
        else index_get 0 (t_degrees s) u)
    \<and> index_get community_degree_0 (t_community_degrees (fst (level_tables gr (s, ds, ce)))) u =
       (if u \<in> fst ` set gr
        then \<lparr>in_degree = 0, tot_degree = adjacency_weight (adjacency gr u)\<rparr>
        else index_get community_degree_0 (t_community_degrees s) u)"
  using assms
proof (induction gr arbitrary: s ds ce)
  case Nil
  then show ?case by simp
next
  case (Cons e gr)
  obtain d ce' where ld: "level_degree 0 ce (snd e) = (d, ce')" by (cases "level_degree 0 ce (snd e)")
  have d: "d = adjacency_weight (snd e)" using level_degree_eq [of 0 ce "snd e"] ld by simp
  let ?s1 = "\<lparr>t_partition = AList.update (fst e) (fst e) (t_partition s),
              t_degrees = AList.update (fst e) d (t_degrees s),
              t_community_degrees =
                AList.update (fst e) \<lparr>in_degree = 0, tot_degree = d\<rparr> (t_community_degrees s)\<rparr>"
  have step: "level_tables (e # gr) (s, ds, ce) =
      level_tables gr (?s1, trunc (real_of_int ds + d), ce')"
    using ld by simp
  have dist: "distinct (map fst gr)" and fresh: "fst e \<notin> fst ` set gr"
    using Cons.prems by auto
  have adj_e: "adjacency (e # gr) (fst e) = snd e"
    by (simp add: adjacency_def index_get_def)
  have adj_o: "adjacency (e # gr) u = adjacency gr u" if "u \<noteq> fst e"
    using that by (simp add: adjacency_def index_get_def)
  show ?case
  proof (cases "u = fst e")
    case True
    then show ?thesis
      unfolding step using Cons.IH [OF dist, of ?s1] fresh adj_e d
      by (simp add: index_get_update)
  next
    case False
    then show ?thesis
      unfolding step using Cons.IH [OF dist, of ?s1] adj_o
      by (simp add: index_get_update)
  qed
qed

lemma level_start_invariant:
  assumes "undirected gr"
  shows "stats_invariant gr (level_start gr)"
proof (rule stats_invariant_start [OF assms])
  have d: "distinct (map fst gr)" using assms by (simp add: undirected_def)
  note v = level_tables_views [OF d,
      of "\<lparr>t_partition = [], t_degrees = [], t_community_degrees = []\<rparr>" 0 0]
  show "\<forall>u \<in> fst ` set gr. index_get 0 (t_partition (level_start gr)) u = u
        \<and> adjacency_weight (adjacency gr u) \<le> index_get 0 (t_degrees (level_start gr)) u
        \<and> index_get community_degree_0 (t_community_degrees (level_start gr)) u =
            \<lparr>in_degree = 0, tot_degree = index_get 0 (t_degrees (level_start gr)) u\<rparr>"
    unfolding level_start_def using v by simp
  show "\<forall>c. c \<notin> fst ` set gr \<longrightarrow>
        index_get community_degree_0 (t_community_degrees (level_start gr)) c = community_degree_0"
    unfolding level_start_def using v by (simp add: index_get_def)
qed

lemma initialize_batch_degrees:
  "map_of (t_degrees (initialize_batch g vs s)) k =
     (if k \<in> set vs then Some (degree_of g k) else map_of (t_degrees s) k)
   \<and> map_of (t_community_degrees (initialize_batch g vs s)) k =
     (if k \<in> set vs then Some \<lparr>in_degree = 0, tot_degree = degree_of g k\<rparr>
      else map_of (t_community_degrees s) k)"
  by (induction vs arbitrary: s) (simp_all add: AList.update_conv')

lemma initialize_batches_degrees:
  "map_of (t_degrees (initialize_batches g bs s)) k =
     (if k \<in> set (concat bs) then Some (degree_of g k) else map_of (t_degrees s) k)
   \<and> map_of (t_community_degrees (initialize_batches g bs s)) k =
     (if k \<in> set (concat bs) then Some \<lparr>in_degree = 0, tot_degree = degree_of g k\<rparr>
      else map_of (t_community_degrees s) k)"
  by (induction bs arbitrary: s) (simp_all add: initialize_batch_degrees)

lemma initialize_degrees:
  "map_of (t_degrees (initialize g)) k =
     (if k \<in> set (vertex_stream g) then Some (degree_of g k) else None)"
  "map_of (t_community_degrees (initialize g)) k =
     (if k \<in> set (vertex_stream g) then Some \<lparr>in_degree = 0, tot_degree = degree_of g k\<rparr>
      else None)"
  using initialize_batches_degrees [of g "keys_batches g"
      "\<lparr>t_partition = [], t_degrees = [], t_community_degrees = []\<rparr>" k]
  by (simp_all add: initialize_def vertex_stream_def)

lemma adjacency_weight_unit [simp]: "adjacency_weight (unit_weights ns) = real (length ns)"
  by (induction ns) (simp_all add: adjacency_weight_def unit_weights_def)

lemma keys_store_graph [simp]: "fst ` set (store_graph g) = set (vertex_stream g)"
  by (auto simp: store_graph_def image_iff)

lemma initialize_invariant:
  assumes wf: "undirected (store_graph g)"
    and deg: "\<forall>v \<in> set (vertex_stream g). real (length (neighbors_of g v)) \<le> degree_of g v"
  shows "stats_invariant (store_graph g) (initialize g)"
proof (rule stats_invariant_start [OF wf])
  have adj: "adjacency (store_graph g) u = unit_weights (neighbors_of g u)"
    if "u \<in> set (vertex_stream g)" for u
  proof -
    have "(u, unit_weights (neighbors_of g u)) \<in> set (store_graph g)"
      using that by (auto simp: store_graph_def)
    then show ?thesis using undirected_entry(1) [OF wf] by blast
  qed
  show "\<forall>u \<in> fst ` set (store_graph g). index_get 0 (t_partition (initialize g)) u = u
        \<and> adjacency_weight (adjacency (store_graph g) u) \<le> index_get 0 (t_degrees (initialize g)) u
        \<and> index_get community_degree_0 (t_community_degrees (initialize g)) u =
            \<lparr>in_degree = 0, tot_degree = index_get 0 (t_degrees (initialize g)) u\<rparr>"
    using deg adj by (simp add: index_get_def initialize_tables initialize_degrees)
  show "\<forall>c. c \<notin> fst ` set (store_graph g) \<longrightarrow>
        index_get community_degree_0 (t_community_degrees (initialize g)) c = community_degree_0"
    by (simp add: index_get_def initialize_degrees)
qed


lemma stats_invariant_lookup:
  assumes "undirected gr" and "stats_invariant gr s"
    and "map_of (t_community_degrees s) c = Some d"
  shows "in_degree d \<le> tot_degree d"
  using stats_invariant_bound [OF assms(1,2), of c] assms(3) by (simp add: index_get_def)

text \<open>
  C6 (as stated, refuted). The two-vertex graph with one edge of weight 1, after the sweep
  body has moved vertex 1 into the community of vertex 2: both endpoints of the edge are
  inside community 2, twice its weight is 2, and the Community Degree Stats hold
  \<open>in_degree = 1\<close> and \<open>tot_degree = 1\<close> for that community.
\<close>

theorem internal_degree_twice_counterexample:
  "t_partition (first_phase_bodies
       \<lparr>keys_batches = [[1, 2]],
        neighbors_of = (\<lambda>v. if v = 1 then [2] else if v = 2 then [1] else []),
        degree_of = (\<lambda>v. 1), number_of_edges = 1\<rparr> 1 [1]
       (initialize \<lparr>keys_batches = [[1, 2]],
        neighbors_of = (\<lambda>v. if v = 1 then [2] else if v = 2 then [1] else []),
        degree_of = (\<lambda>v. 1), number_of_edges = 1\<rparr>)) = [(1, 2), (2, 2)]
   \<and> t_community_degrees (first_phase_bodies
       \<lparr>keys_batches = [[1, 2]],
        neighbors_of = (\<lambda>v. if v = 1 then [2] else if v = 2 then [1] else []),
        degree_of = (\<lambda>v. 1), number_of_edges = 1\<rparr> 1 [1]
       (initialize \<lparr>keys_batches = [[1, 2]],
        neighbors_of = (\<lambda>v. if v = 1 then [2] else if v = 2 then [1] else []),
        degree_of = (\<lambda>v. 1), number_of_edges = 1\<rparr>)) =
       [(1, \<lparr>in_degree = 0, tot_degree = 0\<rparr>), (2, \<lparr>in_degree = 1, tot_degree = 1\<rparr>)]
   \<and> internal_degree_twice [(1, [(2, 1)]), (2, [(1, 1)])] [(1, 2), (2, 2)] 2 = 2"
proof (intro conjI)
  let ?g = "\<lparr>keys_batches = [[1, 2]],
        neighbors_of = (\<lambda>v. if v = 1 then [2] else if v = 2 then [1] else []),
        degree_of = (\<lambda>v. 1), number_of_edges = 1\<rparr>"
  show "t_partition (first_phase_bodies ?g 1 [1] (initialize ?g)) = [(1, 2), (2, 2)]"
    by code_simp
  show "t_community_degrees (first_phase_bodies ?g 1 [1] (initialize ?g)) =
       [(1, \<lparr>in_degree = 0, tot_degree = 0\<rparr>), (2, \<lparr>in_degree = 1, tot_degree = 1\<rparr>)]"
    by code_simp
  show "internal_degree_twice [(1, [(2, 1)]), (2, [(1, 1)])] [(1, 2), (2, 2)] 2 = 2"
    by (simp add: internal_degree_twice_def tally_def index_get_def)
qed

text \<open>
  C6 (amended). On an undirected graph (one entry per vertex, neighbours among the
  vertices, non-negative symmetric weights; at Level 0 the store read with unit weights,
  every degree at least the number of listed neighbours), in every state reached from
  the initial tables of the level by sweep bodies, accepted moves included, every
  community present in the Community Degree Stats has its stored
  \<open>in_degree \<le> tot_degree\<close>.
\<close>

theorem in_degree_le_tot_degree:
  "(undirected graph' \<and> set visited \<subseteq> set graph' \<longrightarrow>
      (\<forall>c d. map_of (t_community_degrees
                 (second_phase_bodies count_edges visited (level_start graph'))) c = Some d
         \<longrightarrow> in_degree d \<le> tot_degree d))
   \<and> (undirected (store_graph g)
      \<and> (\<forall>v \<in> set (vertex_stream g). real (length (neighbors_of g v)) \<le> degree_of g v)
      \<and> set visited_vertices \<subseteq> set (vertex_stream g) \<longrightarrow>
      (\<forall>c d. map_of (t_community_degrees
                 (first_phase_bodies g count_edges visited_vertices (initialize g))) c = Some d
         \<longrightarrow> in_degree d \<le> tot_degree d))"
proof (intro conjI impI allI)
  fix c d
  assume a: "undirected graph' \<and> set visited \<subseteq> set graph'"
    and m: "map_of (t_community_degrees
                 (second_phase_bodies count_edges visited (level_start graph'))) c = Some d"
  have "stats_invariant graph' (second_phase_bodies count_edges visited (level_start graph'))"
    using a by (intro second_phase_bodies_invariant level_start_invariant) simp_all
  then show "in_degree d \<le> tot_degree d"
    using stats_invariant_lookup a m by blast
next
  fix c d
  assume a: "undirected (store_graph g)
      \<and> (\<forall>v \<in> set (vertex_stream g). real (length (neighbors_of g v)) \<le> degree_of g v)
      \<and> set visited_vertices \<subseteq> set (vertex_stream g)"
    and m: "map_of (t_community_degrees
                 (first_phase_bodies g count_edges visited_vertices (initialize g))) c = Some d"
  have sub: "set (map (\<lambda>v. (v, unit_weights (neighbors_of g v))) visited_vertices)
      \<subseteq> set (store_graph g)"
    using a by (auto simp: store_graph_def)
  have "stats_invariant (store_graph g)
      (first_phase_bodies g count_edges visited_vertices (initialize g))"
    unfolding first_phase_bodies_unit
    using a sub by (intro second_phase_bodies_invariant initialize_invariant) simp_all
  then show "in_degree d \<le> tot_degree d"
    using stats_invariant_lookup a m by blast
qed

theorem in_degree_le_tot_degree_witness:
  "undirected [(1, [(2, 1)]), (2, [(1, 1)])]
   \<and> t_community_degrees
       (second_phase_bodies 1 [(1, [(2, 1)])] (level_start [(1, [(2, 1)]), (2, [(1, 1)])])) =
       [(1, \<lparr>in_degree = 0, tot_degree = 0\<rparr>), (2, \<lparr>in_degree = 1, tot_degree = 1\<rparr>)]
   \<and> in_degree \<lparr>in_degree = 1, tot_degree = 1\<rparr> \<le> tot_degree \<lparr>in_degree = 1, tot_degree = 1\<rparr>
   \<and> t_community_degrees (first_phase_bodies
       \<lparr>keys_batches = [[1, 2]],
        neighbors_of = (\<lambda>v. if v = 1 then [2] else if v = 2 then [1] else []),
        degree_of = (\<lambda>v. 1), number_of_edges = 1\<rparr> 1 [1]
       (initialize \<lparr>keys_batches = [[1, 2]],
        neighbors_of = (\<lambda>v. if v = 1 then [2] else if v = 2 then [1] else []),
        degree_of = (\<lambda>v. 1), number_of_edges = 1\<rparr>)) =
       [(1, \<lparr>in_degree = 0, tot_degree = 0\<rparr>), (2, \<lparr>in_degree = 1, tot_degree = 1\<rparr>)]"
proof -
  let ?gr = "[(1, [(2, 1)]), (2, [(1, 1)])] :: graph_t"
  let ?g = "\<lparr>keys_batches = [[1, 2]],
        neighbors_of = (\<lambda>v. if v = 1 then [2] else if v = 2 then [1] else []),
        degree_of = (\<lambda>v. 1), number_of_edges = 1\<rparr>"
  let ?cd = "[(1, \<lparr>in_degree = 0, tot_degree = 0\<rparr>), (2, \<lparr>in_degree = 1, tot_degree = 1\<rparr>)]"
  have u: "undirected ?gr"
    by (simp add: undirected_def adjacency_def index_get_def edge_weight_def)
  have sg: "store_graph ?g = ?gr"
    by (simp add: store_graph_def vertex_stream_def unit_weights_def)
  have deg: "\<forall>v \<in> set (vertex_stream ?g). real (length (neighbors_of ?g v)) \<le> degree_of ?g v"
    by (simp add: vertex_stream_def)
  have v2: "set [(1, [(2, 1)])] \<subseteq> set ?gr" and v1: "set [1] \<subseteq> set (vertex_stream ?g)"
    by (simp_all add: vertex_stream_def)
  have r2: "t_community_degrees (second_phase_bodies 1 [(1, [(2, 1)])] (level_start ?gr)) = ?cd"
    by code_simp
  have r1: "t_community_degrees (first_phase_bodies ?g 1 [1] (initialize ?g)) = ?cd"
    by code_simp
  have "in_degree \<lparr>in_degree = 1, tot_degree = 1\<rparr> \<le> tot_degree \<lparr>in_degree = 1, tot_degree = 1\<rparr>"
    using in_degree_le_tot_degree [of ?gr "[(1, [(2, 1)])]" 1 ?g "[1]"] u sg deg v2 v1 r2 r1
    by simp
  then show ?thesis using u r2 r1 by simp
qed

end
